theory Spec2Isabelle
  imports Main "HOL-Library.Sublist"
begin

section \<open>The mini shell: job table, parser and pipeline launch\<close>

text \<open>
  A shallow embedding of \<^verbatim>\<open>minishell.c\<close>. The global variables of the C file
  (\<^verbatim>\<open>jobs\<close>, \<^verbatim>\<open>job_count\<close>, \<^verbatim>\<open>next_job_id\<close>, \<^verbatim>\<open>history\<close>) are the fields of one
  record that every function takes and returns. What the shell does to the outside
  world (output, system calls) is appended to a trace; what the outside world answers
  (results of \<^verbatim>\<open>fork\<close>, \<^verbatim>\<open>pipe\<close>, \<^verbatim>\<open>waitpid\<close>, \<^verbatim>\<open>open\<close>, ...) is read from a
  record of answers.
\<close>

subsection \<open>Constants\<close>

definition MAX_INPUT :: nat where "MAX_INPUT = 2048"
definition MAX_ARGS :: nat where "MAX_ARGS = 128"
definition MAX_CMDS :: nat where "MAX_CMDS = 32"
definition MAX_JOBS :: nat where "MAX_JOBS = 64"

text \<open>
  The C type \<^verbatim>\<open>int\<close> is 32 bits wide. Values are kept as integers and the one
  place where the program counts upwards without a bound, \<^verbatim>\<open>next_job_id++\<close>, wraps
  around in two's complement (what the increment compiles to; ISO C leaves the overflow
  undefined).
\<close>

definition INT_MAX :: int where "INT_MAX = 2147483647"

definition int_wrap :: "int \<Rightarrow> int" where
  "int_wrap x = (x + 2147483648) mod 4294967296 - 2147483648"

subsection \<open>Data\<close>

datatype job_state = JOB_RUNNING | JOB_STOPPED | JOB_DONE

record Job =
  id_job :: int
  pgid :: int
  cmdline :: string
  state :: job_state

record Command =
  argv :: "string list"
  infile :: "string option"
  outfile :: "string option"
  append_out :: int

datatype signal = SIGINT | SIGTSTP | SIGCONT | SIGTERM

text \<open>The status word that \<^verbatim>\<open>waitpid\<close> fills in, read through the four macros.\<close>

datatype wait_status = Exited int | Signaled int | Stopped int | Continued

definition WIFEXITED :: "wait_status \<Rightarrow> bool" where
  "WIFEXITED st = (case st of Exited _ \<Rightarrow> True | _ \<Rightarrow> False)"

definition WIFSIGNALED :: "wait_status \<Rightarrow> bool" where
  "WIFSIGNALED st = (case st of Signaled _ \<Rightarrow> True | _ \<Rightarrow> False)"

definition WIFSTOPPED :: "wait_status \<Rightarrow> bool" where
  "WIFSTOPPED st = (case st of Stopped _ \<Rightarrow> True | _ \<Rightarrow> False)"

definition WIFCONTINUED :: "wait_status \<Rightarrow> bool" where
  "WIFCONTINUED st = (case st of Continued \<Rightarrow> True | _ \<Rightarrow> False)"

datatype std_fd = STDIN_FILENO | STDOUT_FILENO

text \<open>What a forked child does, in order, until it exits or becomes another program.\<close>

datatype child_action =
    Signal_dfl signal
  | Child_setpgid int
  | Child_tcsetpgrp int
  | Dup2_pipe nat nat std_fd
  | Close_pipe nat nat
  | Redirect_in string
  | Redirect_out string bool
  | Child_perror string
  | Child_exit int
  | Execvp_failed string
  | Execvp string "string list"

text \<open>What the shell process itself does.\<close>

datatype effect =
    Stdout string
  | Stderr string
  | Perror string
  | Chdir string
  | Save_history "string list"
  | Tcsetpgrp int
  | Kill int signal
  | Pipe nat
  | Fork int "child_action list"
  | Setpgid int int
  | Close nat nat
  | Waitpid int wait_status

record shell =
  jobs :: "Job list"
  job_count :: nat
  next_job_id :: int
  history :: "string list"
  trace :: "effect list"

text \<open>
  The array \<^verbatim>\<open>jobs\<close> has \<^verbatim>\<open>MAX_JOBS\<close> slots, of which the first \<^verbatim>\<open>job_count\<close>
  are in use. The job table in the sense of the specification is that prefix.
\<close>

definition table :: "shell \<Rightarrow> Job list" where
  "table s = take (job_count s) (jobs s)"

definition wf_shell :: "shell \<Rightarrow> bool" where
  "wf_shell s = (length (jobs s) = MAX_JOBS \<and> job_count s \<le> MAX_JOBS)"

definition emit :: "shell \<Rightarrow> effect list \<Rightarrow> shell" where
  "emit s es = s\<lparr>trace := trace s @ es\<rparr>"

definition set_state :: "shell \<Rightarrow> nat \<Rightarrow> job_state \<Rightarrow> shell" where
  "set_state s idx st = s\<lparr>jobs := (jobs s)[idx := (jobs s ! idx)\<lparr>state := st\<rparr>]\<rparr>"

subsection \<open>Job table\<close>

function find_job_from :: "(Job \<Rightarrow> bool) \<Rightarrow> Job list \<Rightarrow> nat \<Rightarrow> nat \<Rightarrow> int" where
  "find_job_from P js n i =
     (if i < n then (if P (js ! i) then int i else find_job_from P js n (i + 1)) else - 1)"
  by pat_completeness auto
termination
  by (relation "measure (\<lambda>(P, js, n, i). n - i)") auto

declare find_job_from.simps [simp del]

definition find_job_index_by_id :: "shell \<Rightarrow> int \<Rightarrow> int" where
  "find_job_index_by_id s x = find_job_from (\<lambda>j. id_job j = x) (jobs s) (job_count s) 0"

definition find_job_index_by_pgid :: "shell \<Rightarrow> int \<Rightarrow> int" where
  "find_job_index_by_pgid s pg = find_job_from (\<lambda>j. pgid j = pg) (jobs s) (job_count s) 0"

function remove_done_loop :: "Job list \<Rightarrow> nat \<Rightarrow> nat \<Rightarrow> nat \<Rightarrow> nat \<times> Job list" where
  "remove_done_loop js n r w =
     (if r < n then
        (if state (js ! r) \<noteq> JOB_DONE
         then remove_done_loop (if w \<noteq> r then js[w := js ! r] else js) n (r + 1) (w + 1)
         else remove_done_loop js n (r + 1) w)
      else (w, js))"
  by pat_completeness auto
termination
  by (relation "measure (\<lambda>(js, n, r, w). n - r)") auto

declare remove_done_loop.simps [simp del]

definition remove_done_jobs :: "shell \<Rightarrow> shell" where
  "remove_done_jobs s =
     (case remove_done_loop (jobs s) (job_count s) 0 0 of
        (w, js) \<Rightarrow> s\<lparr>jobs := js, job_count := w\<rparr>)"

definition add_job_entry :: "shell \<Rightarrow> int \<Rightarrow> string \<Rightarrow> job_state \<Rightarrow> shell" where
  "add_job_entry s pg cmd st =
     (if job_count s \<ge> MAX_JOBS then s
      else s\<lparr>jobs := (jobs s)[job_count s :=
                 \<lparr>id_job = next_job_id s, pgid = pg,
                  cmdline = take (MAX_INPUT - 1) cmd, state = st\<rparr>],
             next_job_id := int_wrap (next_job_id s + 1),
             job_count := job_count s + 1\<rparr>)"

subsection \<open>Printing\<close>

text \<open>\<^verbatim>\<open>printf\<close> with \<^verbatim>\<open>%d\<close> and with \<^verbatim>\<open>%-8s\<close>.\<close>

function show_nat :: "nat \<Rightarrow> string" where
  "show_nat n = (if n < 10 then [''0123456789'' ! n]
                 else show_nat (n div 10) @ [''0123456789'' ! (n mod 10)])"
  by pat_completeness auto
termination
  by (relation "measure (\<lambda>n. n)") auto

declare show_nat.simps [simp del]

definition show_int :: "int \<Rightarrow> string" where
  "show_int i = (if i < 0 then CHR ''-'' # show_nat (nat (- i)) else show_nat (nat i))"

definition pad_right :: "nat \<Rightarrow> string \<Rightarrow> string" where
  "pad_right n str = str @ replicate (n - length str) (CHR '' '')"

definition newline :: string where
  "newline = [CHR 0x0A]"

definition job_line :: "Job \<Rightarrow> string" where
  "job_line j =
     ''['' @ show_int (id_job j) @ ''] '' @ show_int (pgid j) @ ''  '' @
     pad_right 8 (if state j = JOB_RUNNING then ''Running''
                  else if state j = JOB_STOPPED then ''Stopped'' else ''Done'') @
     ''  '' @ cmdline j @ newline"

function print_jobs_from :: "Job list \<Rightarrow> nat \<Rightarrow> nat \<Rightarrow> effect list" where
  "print_jobs_from js n i =
     (if i < n then
        (if state (js ! i) = JOB_DONE then print_jobs_from js n (i + 1)
         else Stdout (job_line (js ! i)) # print_jobs_from js n (i + 1))
      else [])"
  by pat_completeness auto
termination
  by (relation "measure (\<lambda>(js, n, i). n - i)") auto

declare print_jobs_from.simps [simp del]

definition print_jobs :: "shell \<Rightarrow> shell" where
  "print_jobs s = emit s (print_jobs_from (jobs s) (job_count s) 0)"

subsection \<open>Signals\<close>

text \<open>
  The handler drains the pending child events with \<^verbatim>\<open>waitpid(-1, ..., WNOHANG | ...)\<close>.
  A batch is the list of events these calls return before \<^verbatim>\<open>waitpid\<close> returns a
  value that is not positive; an event is the process id, what \<^verbatim>\<open>getpgid\<close> answers
  for it, and the status.
\<close>

type_synonym child_event = "int \<times> int \<times> wait_status"

fun sigchld_handler :: "shell \<Rightarrow> child_event list \<Rightarrow> shell" where
  "sigchld_handler s [] = s"
| "sigchld_handler s ((pid, pg, status) # rest) =
     (let s1 = emit s [Waitpid pid status];
          idx = find_job_index_by_pgid s1 pg
      in sigchld_handler
           (if idx \<ge> 0 then
              (if WIFSTOPPED status then set_state s1 (nat idx) JOB_STOPPED
               else if WIFCONTINUED status then set_state s1 (nat idx) JOB_RUNNING
               else if WIFEXITED status \<or> WIFSIGNALED status
                 then set_state s1 (nat idx) JOB_DONE
               else s1)
            else s1)
           rest)"

subsection \<open>Parsing\<close>

text \<open>
  One call of \<^verbatim>\<open>strtok_r\<close> on the text at the save pointer: skip the delimiters, stop
  with \<^verbatim>\<open>NULL\<close> at the end of the text, otherwise cut the token at the next delimiter
  and leave the save pointer behind it.
\<close>

definition strtok_r :: "string \<Rightarrow> string \<Rightarrow> (string \<times> string) option" where
  "strtok_r str delim =
     (let s1 = dropWhile (\<lambda>c. c \<in> set delim) str in
      if s1 = [] then None
      else Some (takeWhile (\<lambda>c. c \<notin> set delim) s1,
                 drop 1 (dropWhile (\<lambda>c. c \<notin> set delim) s1)))"

lemma strtok_r_shorter:
  "strtok_r str delim = Some (tok, rest) \<Longrightarrow> length rest < length str"
proof -
  assume a: "strtok_r str delim = Some (tok, rest)"
  define s1 where "s1 = dropWhile (\<lambda>c. c \<in> set delim) str"
  from a have ne: "s1 \<noteq> []" and r: "rest = drop 1 (dropWhile (\<lambda>c. c \<notin> set delim) s1)"
    by (auto simp: strtok_r_def s1_def Let_def split: if_splits)
  have "length rest < length s1"
    using ne length_dropWhile_le [of "\<lambda>c. c \<notin> set delim" s1] by (cases s1) (auto simp: r)
  moreover have "length s1 \<le> length str"
    by (simp add: s1_def length_dropWhile_le)
  ultimately show ?thesis by simp
qed

text \<open>All the tokens that successive calls of \<^verbatim>\<open>strtok_r\<close> return.\<close>

function strtok_all :: "string \<Rightarrow> string \<Rightarrow> string list" where
  "strtok_all str delim =
     (case strtok_r str delim of
        None \<Rightarrow> []
      | Some (tok, rest) \<Rightarrow> tok # strtok_all rest delim)"
  by pat_completeness auto
termination
  by (relation "measure (\<lambda>(str, delim). length str)") (auto simp: strtok_r_shorter)

declare strtok_all.simps [simp del]

definition split_pipeline :: "string \<Rightarrow> nat \<Rightarrow> string list" where
  "split_pipeline line maxseg =
     map (dropWhile (\<lambda>c. c = CHR '' '')) (take maxseg (strtok_all line ''|''))"

definition empty_command :: Command where
  "empty_command = \<lparr>argv = [], infile = None, outfile = None, append_out = 0\<rparr>"

text \<open>
  The loop of \<^verbatim>\<open>parse_command\<close> over the tokens of the segment; \<^verbatim>\<open>argc\<close> is the
  length of \<^verbatim>\<open>argv\<close>.
\<close>

fun parse_tokens :: "string list \<Rightarrow> Command \<Rightarrow> Command" where
  "parse_tokens [] cmd = cmd"
| "parse_tokens (tok # rest) cmd =
     (if length (argv cmd) < MAX_ARGS - 1 then
        (if tok = ''<'' then
           (case rest of [] \<Rightarrow> cmd
            | f # rest' \<Rightarrow> parse_tokens rest' (cmd\<lparr>infile := Some f\<rparr>))
         else if tok = ''>'' then
           (case rest of [] \<Rightarrow> cmd
            | f # rest' \<Rightarrow> parse_tokens rest' (cmd\<lparr>outfile := Some f, append_out := 0\<rparr>))
         else if tok = ''>>'' then
           (case rest of [] \<Rightarrow> cmd
            | f # rest' \<Rightarrow> parse_tokens rest' (cmd\<lparr>outfile := Some f, append_out := 1\<rparr>))
         else parse_tokens rest (cmd\<lparr>argv := argv cmd @ [tok]\<rparr>))
      else cmd)"

definition whitespace :: string where
  "whitespace = [CHR '' '', CHR 0x09, CHR 0x0A]"

definition parse_command :: "string \<Rightarrow> Command" where
  "parse_command segment = parse_tokens (strtok_all segment whitespace) empty_command"

subsection \<open>Builtins\<close>

definition is_builtin :: "Command \<Rightarrow> bool" where
  "is_builtin cmd =
     (case argv cmd of
        [] \<Rightarrow> True
      | a0 # _ \<Rightarrow> a0 = ''cd'' \<or> a0 = ''pwd'' \<or> a0 = ''exit'' \<or> a0 = ''jobs'' \<or>
                 a0 = ''fg'' \<or> a0 = ''bg'' \<or> a0 = ''kill'' \<or> a0 = ''history'')"

text \<open>
  \<^verbatim>\<open>atoi\<close> of the C library: white space, an optional sign, decimal digits; the value
  is what \<^verbatim>\<open>strtol\<close> gives (clamped to 64 bits), cut to an \<^verbatim>\<open>int\<close>.
\<close>

definition isspace :: "char \<Rightarrow> bool" where
  "isspace c = (c \<in> set [CHR '' '', CHR 0x09, CHR 0x0A, CHR 0x0B, CHR 0x0C, CHR 0x0D])"

definition isdigit :: "char \<Rightarrow> bool" where
  "isdigit c = (c \<in> set ''0123456789'')"

fun atoi_digits :: "string \<Rightarrow> int \<Rightarrow> int" where
  "atoi_digits [] acc = acc"
| "atoi_digits (c # cs) acc =
     (if isdigit c then atoi_digits cs (acc * 10 + (int (of_char c) - 48)) else acc)"

definition atoi :: "string \<Rightarrow> int" where
  "atoi str =
     (let s1 = dropWhile isspace str;
          v = (case s1 of
                 [] \<Rightarrow> 0
               | c # cs \<Rightarrow> if c = CHR ''-'' then - atoi_digits cs 0
                          else if c = CHR ''+'' then atoi_digits cs 0
                          else atoi_digits s1 0)
      in int_wrap (max (- 9223372036854775808) (min 9223372036854775807 v)))"

text \<open>What the operating system answers during one call of \<^verbatim>\<open>execute_line\<close>.\<close>

record os =
  getenv_HOME :: "string option"
  chdir_ok :: "string \<Rightarrow> bool"
  getcwd_res :: "string option"
  fopen_ok :: bool
  getpgrp_res :: int
  pipe_ok :: "nat \<Rightarrow> bool"
  fork_res :: "nat \<Rightarrow> int"
  open_rd_ok :: "string \<Rightarrow> bool"
  open_wr_ok :: "string \<Rightarrow> bool"
  execvp_ok :: "string \<Rightarrow> bool"
  wait_res :: "(int \<times> wait_status) list"
  kill_ok :: bool
  group_gone :: bool

text \<open>
  \<^verbatim>\<open>fork_res w i\<close> is what the \<^verbatim>\<open>fork\<close> for stage \<^verbatim>\<open>i\<close> returns in the shell: \<^verbatim>\<open>-1\<close>
  or the child's process id. \<^verbatim>\<open>wait_res w\<close> lists what the blocking
  \<^verbatim>\<open>waitpid(-pgid, &status, WUNTRACED)\<close> returns, call after call, while it returns a
  process id. \<^verbatim>\<open>group_gone w\<close> says that \<^verbatim>\<open>kill(-pgid, 0)\<close> fails with \<^verbatim>\<open>ESRCH\<close>.
\<close>

datatype 'a result = Return 'a | Exit int

definition builtin_cd :: "os \<Rightarrow> shell \<Rightarrow> string list \<Rightarrow> int \<times> shell" where
  "builtin_cd w s av =
     (let target = (case drop 1 av of
                      a1 # _ \<Rightarrow> a1
                    | [] \<Rightarrow> (case getenv_HOME w of Some h \<Rightarrow> h | None \<Rightarrow> ''.''))
      in (0, if chdir_ok w target then emit s [Chdir target] else emit s [Perror ''cd'']))"

definition print_pwd :: "os \<Rightarrow> shell \<Rightarrow> shell" where
  "print_pwd w s =
     (case getcwd_res w of
        Some buf \<Rightarrow> emit s [Stdout (buf @ newline)]
      | None \<Rightarrow> emit s [Perror ''pwd''])"

definition save_history :: "os \<Rightarrow> shell \<Rightarrow> shell" where
  "save_history w s = (if fopen_ok w then emit s [Save_history (history s)] else s)"

definition print_history :: "shell \<Rightarrow> shell" where
  "print_history s =
     emit s (map (\<lambda>i. Stdout (show_int (int i + 1) @ ''  '' @ history s ! i @ newline))
               [0..<length (history s)])"

text \<open>The wait loop of \<^verbatim>\<open>fg\<close>.\<close>

fun fg_wait :: "(int \<times> wait_status) list \<Rightarrow> shell \<Rightarrow> nat \<Rightarrow> shell" where
  "fg_wait [] s idx = s"
| "fg_wait ((pid, status) # rest) s idx =
     (let s1 = emit s [Waitpid pid status]
      in if WIFSTOPPED status then set_state s1 idx JOB_STOPPED
         else fg_wait rest s1 idx)"

definition run_builtin :: "os \<Rightarrow> shell \<Rightarrow> Command \<Rightarrow> string \<Rightarrow> int result \<times> shell" where
  "run_builtin w s cmd full_line =
     (case argv cmd of
        [] \<Rightarrow> (Return 0, s)
      | a0 # args \<Rightarrow>
          if a0 = ''cd'' then (case builtin_cd w s (argv cmd) of (r, s') \<Rightarrow> (Return r, s'))
          else if a0 = ''pwd'' then (Return 0, print_pwd w s)
          else if a0 = ''exit'' then (Exit 0, save_history w s)
          else if a0 = ''jobs'' then (Return 0, print_jobs (remove_done_jobs s))
          else if a0 = ''history'' then (Return 0, print_history s)
          else if a0 = ''fg'' then
            (case args of
               [] \<Rightarrow> (Return (- 1), emit s [Stderr (''fg <job_id>'' @ newline)])
             | a1 # _ \<Rightarrow>
                 let idx = find_job_index_by_id s (atoi a1) in
                 if idx < 0 then (Return (- 1), emit s [Stderr (''fg: no such job'' @ newline)])
                 else
                   let pg = pgid (jobs s ! nat idx);
                       s1 = emit s [Tcsetpgrp pg, Kill (- pg) SIGCONT];
                       s2 = fg_wait (wait_res w) s1 (nat idx);
                       s3 = emit s2 [Tcsetpgrp (getpgrp_res w)];
                       s4 = (if group_gone w then set_state s3 (nat idx) JOB_DONE else s3)
                   in (Return 0, s4))
          else if a0 = ''bg'' then
            (case args of
               [] \<Rightarrow> (Return (- 1), emit s [Stderr (''bg <job_id>'' @ newline)])
             | a1 # _ \<Rightarrow>
                 let idx = find_job_index_by_id s (atoi a1) in
                 if idx < 0 then (Return (- 1), emit s [Stderr (''bg: no such job'' @ newline)])
                 else
                   let s1 = emit s [Kill (- pgid (jobs s ! nat idx)) SIGCONT]
                   in (Return 0, set_state s1 (nat idx) JOB_RUNNING))
          else if a0 = ''kill'' then
            (case args of
               [] \<Rightarrow> (Return (- 1), emit s [Stderr (''kill <job_id>'' @ newline)])
             | a1 # _ \<Rightarrow>
                 let idx = find_job_index_by_id s (atoi a1) in
                 if idx < 0 then (Return (- 1), emit s [Stderr (''kill: no such job'' @ newline)])
                 else
                   let s1 = emit s [Kill (- pgid (jobs s ! nat idx)) SIGTERM];
                       s2 = (if kill_ok w then s1 else emit s1 [Perror ''kill''])
                   in (Return 0, set_state s2 (nat idx) JOB_DONE))
          else (Return (- 1), s))"


subsection \<open>Launching a pipeline\<close>

text \<open>
  \<^verbatim>\<open>setup_redirections\<close> runs in the child; the flag says whether the child is still
  alive afterwards (\<^verbatim>\<open>_exit(1)\<close> when a file cannot be opened).
\<close>

definition setup_redirections :: "os \<Rightarrow> Command \<Rightarrow> child_action list \<times> bool" where
  "setup_redirections w cmd =
     (case (case infile cmd of
              None \<Rightarrow> ([], True)
            | Some f \<Rightarrow> if open_rd_ok w f then ([Redirect_in f], True)
                        else ([Child_perror ''open <'', Child_exit 1], False)) of
        (acts, False) \<Rightarrow> (acts, False)
      | (acts, True) \<Rightarrow>
          (case outfile cmd of
             None \<Rightarrow> (acts, True)
           | Some f \<Rightarrow> if open_wr_ok w f
                       then (acts @ [Redirect_out f (append_out cmd \<noteq> 0)], True)
                       else (acts @ [Child_perror ''open >'', Child_exit 1], False)))"

text \<open>
  The branch \<^verbatim>\<open>pid == 0\<close> of the launch loop for stage \<^verbatim>\<open>i\<close> of \<^verbatim>\<open>nseg\<close>; \<^verbatim>\<open>pg\<close> is
  the value of \<^verbatim>\<open>pgid\<close> after \<^verbatim>\<open>if (pgid == 0) pgid = getpid()\<close>.
\<close>

definition child_run :: "os \<Rightarrow> Command \<Rightarrow> nat \<Rightarrow> nat \<Rightarrow> bool \<Rightarrow> int \<Rightarrow> child_action list" where
  "child_run w cmd i nseg background pg =
     [Signal_dfl SIGINT, Signal_dfl SIGTSTP, Child_setpgid pg] @
     (if \<not> background \<and> i = 0 then [Child_tcsetpgrp pg] else []) @
     (if i > 0 then [Dup2_pipe (i - 1) 0 STDIN_FILENO] else []) @
     (if i < nseg - 1 then [Dup2_pipe i 1 STDOUT_FILENO] else []) @
     concat (map (\<lambda>k. [Close_pipe k 0, Close_pipe k 1]) [0..<nseg - 1]) @
     (case setup_redirections w cmd of
        (acts, False) \<Rightarrow> acts
      | (acts, True) \<Rightarrow>
          acts @
          (case argv cmd of
             [] \<Rightarrow> [Child_exit 0]
           | a0 # _ \<Rightarrow>
               if execvp_ok w a0 then [Execvp a0 (argv cmd)]
               else [Execvp_failed a0, Child_perror ''execvp'', Child_exit 127]))"

function make_pipes :: "os \<Rightarrow> shell \<Rightarrow> nat \<Rightarrow> nat \<Rightarrow> bool \<times> shell" where
  "make_pipes w s nseg i =
     (if i < nseg - 1 then
        (if pipe_ok w i then make_pipes w (emit s [Pipe i]) nseg (i + 1)
         else (False, emit s [Perror ''pipe'']))
      else (True, s))"
  by pat_completeness auto
termination
  by (relation "measure (\<lambda>(w, s, nseg, i). nseg - i)") auto

declare make_pipes.simps [simp del]

text \<open>
  The launch loop. The result is \<^verbatim>\<open>None\<close> when a \<^verbatim>\<open>fork\<close> failed and the function
  returned, otherwise the process group id of the pipeline.
\<close>

function fork_stages ::
  "os \<Rightarrow> shell \<Rightarrow> string list \<Rightarrow> bool \<Rightarrow> nat \<Rightarrow> int \<Rightarrow> int option \<times> shell" where
  "fork_stages w s segments background i pg =
     (if i < length segments then
        (let cmd = parse_command (take (MAX_INPUT - 1) (segments ! i));
             pid = fork_res w i
         in if pid = - 1 then (None, emit s [Perror ''fork''])
            else
              (let pg' = (if pg = 0 then pid else pg)
               in fork_stages w
                    (emit s [Fork pid (child_run w cmd i (length segments) background pg'),
                             Setpgid pid pg'])
                    segments background (i + 1) pg'))
      else (Some pg, s))"
  by pat_completeness auto
termination
  by (relation "measure (\<lambda>(w, s, segments, background, i, pg). length segments - i)") auto

declare fork_stages.simps [simp del]

definition close_pipes :: "shell \<Rightarrow> nat \<Rightarrow> shell" where
  "close_pipes s nseg = emit s (concat (map (\<lambda>i. [Close i 0, Close i 1]) [0..<nseg - 1]))"

text \<open>The foreground wait loop of \<^verbatim>\<open>execute_line\<close>.\<close>

fun launch_wait :: "(int \<times> wait_status) list \<Rightarrow> shell \<Rightarrow> int \<Rightarrow> string \<Rightarrow> shell" where
  "launch_wait [] s pg full = s"
| "launch_wait ((pid, status) # rest) s pg full =
     (let s1 = emit s [Waitpid pid status]
      in if WIFSTOPPED status then
           (let idx = find_job_index_by_pgid s1 pg;
                s2 = (if idx < 0 then add_job_entry s1 pg full JOB_STOPPED
                      else set_state s1 (nat idx) JOB_STOPPED)
            in emit s2 [Stdout (newline @ ''[stopped] '' @ full @ newline)])
         else launch_wait rest s1 pg full)"

definition execute_line :: "os \<Rightarrow> shell \<Rightarrow> string \<Rightarrow> bool \<Rightarrow> string \<Rightarrow> unit result \<times> shell" where
  "execute_line w s line background full_cmd_for_jobs =
     (let segments = split_pipeline line MAX_CMDS;
          nseg = length segments
      in if nseg \<le> 0 then (Return (), s)
         else if nseg = 1 \<and> is_builtin (parse_command (take (MAX_INPUT - 1) (segments ! 0))) then
           (case run_builtin w s (parse_command (take (MAX_INPUT - 1) (segments ! 0)))
                   full_cmd_for_jobs of
              (Return r, s') \<Rightarrow> (Return (), s')
            | (Exit n, s') \<Rightarrow> (Exit n, s'))
         else
           (case make_pipes w s nseg 0 of
              (False, s1) \<Rightarrow> (Return (), s1)
            | (True, s1) \<Rightarrow>
                (case fork_stages w s1 segments background 0 0 of
                   (None, s2) \<Rightarrow> (Return (), s2)
                 | (Some pg, s2) \<Rightarrow>
                     (let s3 = close_pipes s2 nseg in
                      if background then
                        (let s4 = add_job_entry s3 pg full_cmd_for_jobs JOB_RUNNING;
                             s5 = emit s4
                                    [Stdout (''[%'' @ show_int (id_job (jobs s4 ! (job_count s4 - 1)))
                                             @ ''] started in background, PGID='' @ show_int pg
                                             @ newline),
                                     Tcsetpgrp (getpgrp_res w)]
                         in (Return (), s5))
                      else
                        (let s4 = emit s3 [Tcsetpgrp pg];
                             s5 = launch_wait (wait_res w) s4 pg full_cmd_for_jobs
                         in (Return (), emit s5 [Tcsetpgrp (getpgrp_res w)]))))))"

subsection \<open>A session\<close>

text \<open>
  The state at program start (static storage is zeroed), and the three things that
  change the job table while the shell runs: \<^verbatim>\<open>main\<close> calls \<^verbatim>\<open>execute_line\<close> and
  \<^verbatim>\<open>remove_done_jobs\<close>, and the signal handler runs in between. A session is a list
  of such steps; it ends early when the \<^verbatim>\<open>exit\<close> builtin ends the process.
\<close>

definition zero_job :: Job where
  "zero_job = \<lparr>id_job = 0, pgid = 0, cmdline = [], state = JOB_RUNNING\<rparr>"

definition init_shell :: shell where
  "init_shell = \<lparr>jobs = replicate MAX_JOBS zero_job, job_count = 0, next_job_id = 1,
                  history = [], trace = []\<rparr>"

datatype step = Execute_line os string bool string | Sigchld "child_event list" | Remove_done

definition do_step :: "shell \<Rightarrow> step \<Rightarrow> unit result \<times> shell" where
  "do_step s st =
     (case st of
        Execute_line w line background full \<Rightarrow> execute_line w s line background full
      | Sigchld evs \<Rightarrow> (Return (), sigchld_handler s evs)
      | Remove_done \<Rightarrow> (Return (), remove_done_jobs s))"

text \<open>The states a session goes through, the first one included.\<close>

fun session :: "shell \<Rightarrow> step list \<Rightarrow> shell list" where
  "session s [] = [s]"
| "session s (st # rest) =
     s # (case do_step s st of
            (Return u, s') \<Rightarrow> session s' rest
          | (Exit n, s') \<Rightarrow> [s'])"

text \<open>
  What identifies a job: its id, its process group and its command text. Two relations
  between a state and a later one, used for the invariants of a session: the later table
  keeps a subsequence of the jobs and the id counter (\<^verbatim>\<open>keeps\<close>); or it does that, or it
  has one more job, with the id the counter had, and the counter has advanced
  (\<^verbatim>\<open>evolves\<close>). \<^verbatim>\<open>quiet\<close> says that the trace has grown by effects that create nothing.
\<close>

definition job_key :: "Job \<Rightarrow> int \<times> int \<times> string" where
  "job_key j = (id_job j, pgid j, cmdline j)"

definition keys :: "shell \<Rightarrow> (int \<times> int \<times> string) list" where
  "keys s = map job_key (table s)"

definition keeps :: "shell \<Rightarrow> shell \<Rightarrow> bool" where
  "keeps s s' =
     (wf_shell s \<longrightarrow>
        wf_shell s' \<and> next_job_id s' = next_job_id s \<and> subseq (keys s') (keys s))"

definition evolves :: "shell \<Rightarrow> shell \<Rightarrow> bool" where
  "evolves s s' =
     (wf_shell s \<longrightarrow>
        wf_shell s' \<and>
        (next_job_id s' = next_job_id s \<and> subseq (keys s') (keys s) \<or>
         next_job_id s' = int_wrap (next_job_id s + 1) \<and>
         (\<exists>p c. keys s' = keys s @ [(next_job_id s, p, c)])))"

definition is_launch :: "effect \<Rightarrow> bool" where
  "is_launch e = (case e of Fork _ _ \<Rightarrow> True | Setpgid _ _ \<Rightarrow> True | Pipe _ \<Rightarrow> True | _ \<Rightarrow> False)"

definition quiet :: "shell \<Rightarrow> shell \<Rightarrow> bool" where
  "quiet s s' = (\<exists>es. trace s' = trace s @ es \<and> list_all (\<lambda>e. \<not> is_launch e) es)"

definition inv_ids :: "shell \<Rightarrow> bool" where
  "inv_ids s =
     (wf_shell s \<and> 0 < next_job_id s \<and>
      (\<forall>k \<in> set (keys s). 0 < fst k \<and> fst k < next_job_id s) \<and>
      sorted_wrt (<) (map fst (keys s)))"

subsection \<open>Sample inputs\<close>

text \<open>A table with a running, a finished and a stopped job.\<close>

definition job_a :: Job where
  "job_a = \<lparr>id_job = 1, pgid = 100, cmdline = ''sleep 100 &'', state = JOB_RUNNING\<rparr>"

definition job_b :: Job where
  "job_b = \<lparr>id_job = 2, pgid = 200, cmdline = ''cat | wc &'', state = JOB_DONE\<rparr>"

definition job_c :: Job where
  "job_c = \<lparr>id_job = 3, pgid = 300, cmdline = ''vi'', state = JOB_STOPPED\<rparr>"

definition sample_shell :: shell where
  "sample_shell = \<lparr>jobs = [job_a, job_b, job_c] @ replicate 61 zero_job, job_count = 3,
                    next_job_id = 4, history = [], trace = []\<rparr>"

text \<open>The same table without the finished job.\<close>

definition live_shell :: shell where
  "live_shell = \<lparr>jobs = [job_a, job_c] @ replicate 62 zero_job, job_count = 2,
                  next_job_id = 4, history = [], trace = []\<rparr>"

text \<open>Answers of an operating system in which every call succeeds, no file can be opened
  for reading and no program is named like a builtin.\<close>

definition sample_os :: os where
  "sample_os = \<lparr>getenv_HOME = Some ''/root'', chdir_ok = (\<lambda>d. True), getcwd_res = Some ''/tmp'',
                 fopen_ok = True, getpgrp_res = 50, pipe_ok = (\<lambda>i. True),
                 fork_res = (\<lambda>i. 101 + int i), open_rd_ok = (\<lambda>f. False),
                 open_wr_ok = (\<lambda>f. True), execvp_ok = (\<lambda>p. \<not> is_builtin (empty_command\<lparr>argv := [p]\<rparr>)),
                 wait_res = [], kill_ok = True, group_gone = False\<rparr>"

text \<open>
  What \<^verbatim>\<open>getpgid(pid)\<close> answers in the handler for a process of the group \<^verbatim>\<open>pg\<close>, right
  after \<^verbatim>\<open>waitpid\<close> has returned \<^verbatim>\<open>pid\<close> with the status: a process whose exit or fatal
  signal \<^verbatim>\<open>waitpid\<close> has reported is reaped by that call and exists no more, so the answer
  is \<^verbatim>\<open>-1\<close>; a stopped or resumed process still has its group.
\<close>

definition getpgid_after_waitpid :: "int \<Rightarrow> wait_status \<Rightarrow> int" where
  "getpgid_after_waitpid pg status =
     (if WIFEXITED status \<or> WIFSIGNALED status then - 1 else pg)"

subsection \<open>What the specification says of the reaper\<close>

text \<open>
  The specification's words for the signal reaper, to compare the handler with: a stop
  event gives Stopped, a resume event Running, an exit or a fatal signal Done; the event
  goes to the job whose process group the process belongs to (the first entry with that
  process group id), and to no job when there is none.
\<close>

definition event_state :: "wait_status \<Rightarrow> job_state" where
  "event_state st =
     (case st of Stopped _ \<Rightarrow> JOB_STOPPED | Continued \<Rightarrow> JOB_RUNNING
      | Exited _ \<Rightarrow> JOB_DONE | Signaled _ \<Rightarrow> JOB_DONE)"

fun reap_spec :: "Job list \<Rightarrow> child_event \<Rightarrow> Job list" where
  "reap_spec [] ev = []"
| "reap_spec (j # js) (pid, pg, st) =
     (if pgid j = pg then j\<lparr>state := event_state st\<rparr> # js
      else j # reap_spec js (pid, pg, st))"


definition jobs_cmd :: Command where
  "jobs_cmd = \<lparr>argv = [''jobs''], infile = None, outfile = None, append_out = 0\<rparr>"

subsection \<open>Token streams as the specification reads them\<close>

text \<open>
  A stage is a sequence of plain arguments and of redirections (an operator followed by
  its file name). Every token list is the tokens of such a sequence, followed or not by
  one operator that has no file name (lemma \<^verbatim>\<open>tokens_decompose\<close> below).
  \<^verbatim>\<open>apply_item\<close> is what the specification says each item does to the descriptor.
\<close>

datatype redir_op = Redir_in | Redir_out | Redir_append

definition op_token :: "redir_op \<Rightarrow> string" where
  "op_token r = (case r of Redir_in \<Rightarrow> ''<'' | Redir_out \<Rightarrow> ''>'' | Redir_append \<Rightarrow> ''>>'')"

definition is_operator :: "string \<Rightarrow> bool" where
  "is_operator tok = (tok = ''<'' \<or> tok = ''>'' \<or> tok = ''>>'')"

datatype item = Arg string | Redir redir_op string

fun item_tokens :: "item \<Rightarrow> string list" where
  "item_tokens (Arg a) = [a]"
| "item_tokens (Redir r f) = [op_token r, f]"

definition stream_tokens :: "item list \<Rightarrow> string list" where
  "stream_tokens items = concat (map item_tokens items)"

fun apply_item :: "Command \<Rightarrow> item \<Rightarrow> Command" where
  "apply_item cmd (Arg a) = cmd\<lparr>argv := argv cmd @ [a]\<rparr>"
| "apply_item cmd (Redir Redir_in f) = cmd\<lparr>infile := Some f\<rparr>"
| "apply_item cmd (Redir Redir_out f) = cmd\<lparr>outfile := Some f, append_out := 0\<rparr>"
| "apply_item cmd (Redir Redir_append f) = cmd\<lparr>outfile := Some f, append_out := 1\<rparr>"

fun well_formed_item :: "item \<Rightarrow> bool" where
  "well_formed_item (Arg a) = (\<not> is_operator a)"
| "well_formed_item (Redir r f) = True"

definition args_of :: "item list \<Rightarrow> string list" where
  "args_of items = concat (map (\<lambda>it. case it of Arg a \<Rightarrow> [a] | Redir r f \<Rightarrow> []) items)"

subsection \<open>The trace of a launch in which every call succeeds\<close>

text \<open>
  The effects that \<^verbatim>\<open>execute_line\<close> is expected to leave when every \<^verbatim>\<open>pipe\<close> and
  every \<^verbatim>\<open>fork\<close> succeeds: the pipes, then per stage the fork and the \<^verbatim>\<open>setpgid\<close>
  into the group of the first child, then the closing of the pipes.
\<close>

definition stage_command :: "string list \<Rightarrow> nat \<Rightarrow> Command" where
  "stage_command segments i = parse_command (take (MAX_INPUT - 1) (segments ! i))"

definition stage_effects :: "os \<Rightarrow> string list \<Rightarrow> bool \<Rightarrow> int \<Rightarrow> nat \<Rightarrow> effect list" where
  "stage_effects w segments background pg i =
     [Fork (fork_res w i)
        (child_run w (stage_command segments i) i (length segments) background pg),
      Setpgid (fork_res w i) pg]"

definition launch_effects :: "os \<Rightarrow> string list \<Rightarrow> bool \<Rightarrow> effect list" where
  "launch_effects w segments background =
     map Pipe [0..<length segments - 1] @
     concat (map (stage_effects w segments background (fork_res w 0)) [0..<length segments]) @
     concat (map (\<lambda>i. [Close i 0, Close i 1]) [0..<length segments - 1])"

text \<open>A full table, and an operating system whose second \<^verbatim>\<open>fork\<close> fails.\<close>

definition full_shell :: shell where
  "full_shell =
     \<lparr>jobs = map (\<lambda>i. \<lparr>id_job = int i + 1, pgid = 1000 + int i, cmdline = ''sleep 1000 &'',
                          state = JOB_RUNNING\<rparr>) [0..<64],
      job_count = 64, next_job_id = 65, history = [], trace = []\<rparr>"

definition fork_fails_os :: os where
  "fork_fails_os = sample_os\<lparr>fork_res := (\<lambda>i. if i = 0 then 101 else - 1)\<rparr>"

text \<open>A short session: a background job, its termination, a compaction, a second job.\<close>

definition sample_steps :: "step list" where
  "sample_steps =
     [Execute_line sample_os ''sleep 5'' True ''sleep 5 &'',
      Execute_line sample_os ''kill 1'' False ''kill 1'',
      Remove_done,
      Execute_line sample_os ''sleep 6'' True ''sleep 6 &'']"

section \<open>Properties of the job table\<close>

subsection \<open>Compaction\<close>

lemma remove_done_loop_stop:
  "\<not> r < n \<Longrightarrow> remove_done_loop js n r w = (w, js)"
  by (subst remove_done_loop.simps) simp

lemma remove_done_loop_keep:
  "r < n \<Longrightarrow> state (js ! r) \<noteq> JOB_DONE \<Longrightarrow>
   remove_done_loop js n r w =
     remove_done_loop (if w \<noteq> r then js[w := js ! r] else js) n (r + 1) (w + 1)"
  by (subst remove_done_loop.simps) simp

lemma remove_done_loop_skip:
  "r < n \<Longrightarrow> state (js ! r) = JOB_DONE \<Longrightarrow>
   remove_done_loop js n r w = remove_done_loop js n (r + 1) w"
  by (subst remove_done_loop.simps) simp

lemma remove_done_loop_table:
  "w \<le> r \<Longrightarrow> r \<le> n \<Longrightarrow> n \<le> length js \<Longrightarrow>
   take (fst (remove_done_loop js n r w)) (snd (remove_done_loop js n r w)) =
     take w js @ filter (\<lambda>j. state j \<noteq> JOB_DONE) (take (n - r) (drop r js))"
proof (induction js n r w rule: remove_done_loop.induct)
  case (1 js n r w)
  show ?case
  proof (cases "r < n")
    case False
    with "1.prems" show ?thesis by (simp add: remove_done_loop_stop)
  next
    case True
    then have rl: "r < length js" using "1.prems" by simp
    have dr: "take (n - r) (drop r js) = js ! r # take (n - Suc r) (drop (Suc r) js)"
      using True rl
      by (simp add: Cons_nth_drop_Suc [symmetric] take_Suc_Cons [symmetric] Suc_diff_Suc
          del: take_Suc_Cons)
    show ?thesis
    proof (cases "state (js ! r) \<noteq> JOB_DONE")
      case keep: True
      define js' where "js' = (if w \<noteq> r then js[w := js ! r] else js)"
      have IH: "take (fst (remove_done_loop js' n (r + 1) (w + 1)))
                  (snd (remove_done_loop js' n (r + 1) (w + 1))) =
          take (w + 1) js' @
          filter (\<lambda>j. state j \<noteq> JOB_DONE) (take (n - (r + 1)) (drop (r + 1) js'))"
        unfolding js'_def using "1.IH"(1) [OF True keep] "1.prems" True by simp
      have a: "take (w + 1) js' = take w js @ [js ! r]"
        using "1.prems" rl by (auto simp: js'_def take_Suc_conv_app_nth)
      have b: "drop (r + 1) js' = drop (r + 1) js"
        using "1.prems" by (auto simp: js'_def)
      have "remove_done_loop js n r w = remove_done_loop js' n (r + 1) (w + 1)"
        unfolding js'_def by (rule remove_done_loop_keep [OF True keep])
      then show ?thesis
        using IH keep by (simp only: a b dr) simp
    next
      case drop: False
      have IH: "take (fst (remove_done_loop js n (r + 1) w))
                  (snd (remove_done_loop js n (r + 1) w)) =
          take w js @ filter (\<lambda>j. state j \<noteq> JOB_DONE) (take (n - (r + 1)) (drop (r + 1) js))"
        using "1.IH"(2) [OF True drop] "1.prems" True by simp
      have "remove_done_loop js n r w = remove_done_loop js n (r + 1) w"
        using drop True by (simp add: remove_done_loop_skip)
      then show ?thesis
        using IH drop by (simp add: dr)
    qed
  qed
qed

lemma remove_done_loop_bounds:
  "w \<le> r \<Longrightarrow> r \<le> n \<Longrightarrow>
   fst (remove_done_loop js n r w) \<le> n \<and>
   length (snd (remove_done_loop js n r w)) = length js"
proof (induction js n r w rule: remove_done_loop.induct)
  case (1 js n r w)
  show ?case
  proof (cases "r < n")
    case False
    with "1.prems" show ?thesis by (simp add: remove_done_loop_stop)
  next
    case True
    show ?thesis
    proof (cases "state (js ! r) \<noteq> JOB_DONE")
      case keep: True
      then show ?thesis
        using "1.IH"(1) [OF True keep] "1.prems" True
        by (simp add: remove_done_loop_keep [OF True keep] split: if_splits)
    next
      case drop: False
      then show ?thesis
        using "1.IH"(2) [OF True drop] "1.prems" True
        by (simp add: remove_done_loop_skip)
    qed
  qed
qed

lemma remove_done_loop_fixed:
  "r \<le> n \<Longrightarrow> \<forall>i. r \<le> i \<and> i < n \<longrightarrow> state (js ! i) \<noteq> JOB_DONE \<Longrightarrow>
   remove_done_loop js n r r = (n, js)"
proof (induction "n - r" arbitrary: r)
  case 0
  then show ?case by (simp add: remove_done_loop_stop)
next
  case (Suc k)
  then have lt: "r < n" and keep: "state (js ! r) \<noteq> JOB_DONE" by auto
  have "remove_done_loop js n r r = remove_done_loop js n (r + 1) (r + 1)"
    using remove_done_loop_keep [OF lt keep, of r] by simp
  also have "\<dots> = (n, js)"
    using Suc.hyps(1) [of "r + 1"] Suc.hyps(2) Suc.prems lt by simp
  finally show ?case .
qed

lemma table_remove_done_jobs:
  assumes "job_count s \<le> length (jobs s)"
  shows "table (remove_done_jobs s) = filter (\<lambda>j. state j \<noteq> JOB_DONE) (table s)"
proof (cases "remove_done_loop (jobs s) (job_count s) 0 0")
  case (Pair w js)
  with remove_done_loop_table [of 0 0 "job_count s" "jobs s"] assms
  show ?thesis by (simp add: table_def remove_done_jobs_def)
qed

text \<open>
  C5. \<^verbatim>\<open>remove_done_jobs\<close> (the specification's compact) leaves in the table exactly the
  entries whose state is not Done, in their former order and with every field (id,
  process group id, command text, state) as it was; the id counter is not touched.
\<close>

theorem compact_removes_exactly_done:
  assumes "wf_shell s"
  shows "table (remove_done_jobs s) = filter (\<lambda>j. state j \<noteq> JOB_DONE) (table s)
       \<and> next_job_id (remove_done_jobs s) = next_job_id s"
proof -
  have "job_count s \<le> length (jobs s)"
    using assms by (simp add: wf_shell_def)
  then show ?thesis
    by (simp add: table_remove_done_jobs) (simp add: remove_done_jobs_def split: prod.splits)
qed

lemma wf_sample_shell: "wf_shell sample_shell"
  by (simp add: wf_shell_def sample_shell_def MAX_JOBS_def)

lemma table_sample_shell: "table sample_shell = [job_a, job_b, job_c]"
  by (simp add: table_def sample_shell_def)

theorem compact_removes_exactly_done_witness:
  "wf_shell sample_shell
   \<and> table (remove_done_jobs sample_shell) = [job_a, job_c]
   \<and> next_job_id (remove_done_jobs sample_shell) = 4"
  using compact_removes_exactly_done [OF wf_sample_shell]
  by (simp add: wf_sample_shell table_sample_shell job_a_def job_b_def job_c_def)
     (simp add: sample_shell_def)

text \<open>
  C6. Running \<^verbatim>\<open>remove_done_jobs\<close> a second time changes nothing: not the table, not
  the slots of the array behind it, not any other part of the state.
\<close>

theorem compact_idempotent:
  assumes "wf_shell s"
  shows "remove_done_jobs (remove_done_jobs s) = remove_done_jobs s"
proof -
  obtain w js where loop: "remove_done_loop (jobs s) (job_count s) 0 0 = (w, js)"
    by (cases "remove_done_loop (jobs s) (job_count s) 0 0")
  have n: "job_count s \<le> length (jobs s)"
    using assms by (simp add: wf_shell_def)
  have bounds: "w \<le> job_count s" "length js = length (jobs s)"
    using remove_done_loop_bounds [of 0 0 "job_count s" "jobs s"] loop by simp_all
  have tab: "take w js = filter (\<lambda>j. state j \<noteq> JOB_DONE) (take (job_count s) (jobs s))"
    using remove_done_loop_table [of 0 0 "job_count s" "jobs s"] loop n by simp
  have "\<forall>i. 0 \<le> i \<and> i < w \<longrightarrow> state (js ! i) \<noteq> JOB_DONE"
  proof (intro allI impI)
    fix i assume "0 \<le> i \<and> i < w"
    then have i: "i < w" by simp
    then have "js ! i = take w js ! i" by simp
    moreover have "take w js ! i \<in> set (take w js)"
      using i bounds n by (intro nth_mem) simp
    ultimately have "js ! i \<in> set (filter (\<lambda>j. state j \<noteq> JOB_DONE) (take (job_count s) (jobs s)))"
      using tab by simp
    then show "state (js ! i) \<noteq> JOB_DONE" by simp
  qed
  then have "remove_done_loop js w 0 0 = (w, js)"
    by (intro remove_done_loop_fixed) simp_all
  then show ?thesis
    using loop by (simp add: remove_done_jobs_def)
qed

theorem compact_idempotent_witness:
  "wf_shell sample_shell
   \<and> remove_done_jobs (remove_done_jobs sample_shell) = remove_done_jobs sample_shell"
  using compact_idempotent [OF wf_sample_shell] wf_sample_shell by simp

subsection \<open>Lookup\<close>

lemma find_job_from_stop: "\<not> i < n \<Longrightarrow> find_job_from P js n i = - 1"
  by (subst find_job_from.simps) simp

lemma find_job_from_hit: "i < n \<Longrightarrow> P (js ! i) \<Longrightarrow> find_job_from P js n i = int i"
  by (subst find_job_from.simps) simp

lemma find_job_from_miss:
  "i < n \<Longrightarrow> \<not> P (js ! i) \<Longrightarrow> find_job_from P js n i = find_job_from P js n (i + 1)"
  by (subst find_job_from.simps) simp

lemma find_job_from_neg_iff:
  "(find_job_from P js n i < 0) = (\<forall>k. i \<le> k \<and> k < n \<longrightarrow> \<not> P (js ! k))"
proof (induction P js n i rule: find_job_from.induct)
  case (1 P js n i)
  show ?case
  proof (cases "i < n")
    case False
    then show ?thesis by (auto simp: find_job_from_stop)
  next
    case True
    show ?thesis
    proof (cases "P (js ! i)")
      case hit: True
      then show ?thesis using True by (auto simp: find_job_from_hit)
    next
      case miss: False
      have "(\<forall>k. i \<le> k \<and> k < n \<longrightarrow> \<not> P (js ! k)) = (\<forall>k. i + 1 \<le> k \<and> k < n \<longrightarrow> \<not> P (js ! k))"
        using miss by (metis Suc_eq_plus1 Suc_leI le_neq_implies_less Suc_leD)
      then show ?thesis
        using "1.IH" [OF True miss] True miss by (simp add: find_job_from_miss)
    qed
  qed
qed

lemma find_job_from_found:
  "0 \<le> find_job_from P js n i \<Longrightarrow>
   i \<le> nat (find_job_from P js n i) \<and> nat (find_job_from P js n i) < n \<and>
   P (js ! nat (find_job_from P js n i)) \<and>
   (\<forall>k. i \<le> k \<and> k < nat (find_job_from P js n i) \<longrightarrow> \<not> P (js ! k))"
proof (induction P js n i rule: find_job_from.induct)
  case (1 P js n i)
  show ?case
  proof (cases "i < n")
    case False
    then show ?thesis using "1.prems" by (simp add: find_job_from_stop)
  next
    case True
    show ?thesis
    proof (cases "P (js ! i)")
      case hit: True
      then show ?thesis using True by (auto simp: find_job_from_hit)
    next
      case miss: False
      have eq: "find_job_from P js n i = find_job_from P js n (i + 1)"
        using True miss by (simp add: find_job_from_miss)
      have IH: "i + 1 \<le> nat (find_job_from P js n (i + 1)) \<and> nat (find_job_from P js n (i + 1)) < n \<and>
          P (js ! nat (find_job_from P js n (i + 1))) \<and>
          (\<forall>k. i + 1 \<le> k \<and> k < nat (find_job_from P js n (i + 1)) \<longrightarrow> \<not> P (js ! k))"
        using "1.IH" [OF True miss] "1.prems" eq by simp
      have "\<forall>k. i \<le> k \<and> k < nat (find_job_from P js n (i + 1)) \<longrightarrow> \<not> P (js ! k)"
      proof (intro allI impI)
        fix k assume k: "i \<le> k \<and> k < nat (find_job_from P js n (i + 1))"
        show "\<not> P (js ! k)"
        proof (cases "k = i")
          case True then show ?thesis using miss by simp
        next
          case False
          then have "i + 1 \<le> k" using k by simp
          then show ?thesis using IH k by blast
        qed
      qed
      then show ?thesis using IH by (simp add: eq)
    qed
  qed
qed

lemma unknown_id_not_found:
  assumes "wf_shell s" and "\<forall>j \<in> set (table s). id_job j \<noteq> x"
  shows "find_job_index_by_id s x < 0"
proof -
  have "\<forall>k. 0 \<le> k \<and> k < job_count s \<longrightarrow> id_job (jobs s ! k) \<noteq> x"
  proof (intro allI impI)
    fix k assume "0 \<le> k \<and> k < job_count s"
    then have k: "k < job_count s" by simp
    then have "k < length (table s)"
      using assms(1) by (simp add: table_def wf_shell_def)
    then have "table s ! k \<in> set (table s)" by (rule nth_mem)
    moreover have "table s ! k = jobs s ! k" using k by (simp add: table_def)
    ultimately show "id_job (jobs s ! k) \<noteq> x" using assms(2) by auto
  qed
  then show ?thesis
    unfolding find_job_index_by_id_def by (simp add: find_job_from_neg_iff)
qed

text \<open>
  C4. When the job id given to \<^verbatim>\<open>fg\<close>, \<^verbatim>\<open>bg\<close> or \<^verbatim>\<open>kill\<close> is the id of no entry of the
  table, the builtin returns \<^verbatim>\<open>-1\<close> to its caller (the shell goes on), having written
  \<^verbatim>\<open>no such job\<close> to the error stream and nothing else: the array, the count and the
  id counter are as before.
\<close>

theorem unknown_job_id_is_no_such_job:
  assumes "wf_shell s"
    and "\<forall>j \<in> set (table s). id_job j \<noteq> atoi a1"
    and "name = ''fg'' \<or> name = ''bg'' \<or> name = ''kill''"
    and "argv cmd = name # a1 # args"
  shows "run_builtin w s cmd full =
           (Return (- 1), s\<lparr>trace := trace s @ [Stderr (name @ '': no such job'' @ newline)]\<rparr>)"
proof -
  have "find_job_index_by_id s (atoi a1) < 0"
    using assms(1,2) by (rule unknown_id_not_found)
  then show ?thesis
    using assms(3,4) by (auto simp: run_builtin_def emit_def)
qed

theorem unknown_job_id_is_no_such_job_witness:
  "wf_shell sample_shell
   \<and> map id_job (table sample_shell) = [1, 2, 3] \<and> atoi ''7'' = 7
   \<and> run_builtin sample_os sample_shell (empty_command\<lparr>argv := [''kill'', ''7'']\<rparr>) ''kill 7'' =
        (Return (- 1), sample_shell\<lparr>trace := [Stderr (''kill: no such job'' @ newline)]\<rparr>)"
proof -
  have i: "map id_job (table sample_shell) = [1, 2, 3]"
    by (simp add: table_sample_shell job_a_def job_b_def job_c_def)
  have v: "atoi ''7'' = 7"
    by (simp add: atoi_def isspace_def isdigit_def int_wrap_def)
  have a: "\<forall>j \<in> set (table sample_shell). id_job j \<noteq> atoi ''7''"
    by (simp add: table_sample_shell job_a_def job_b_def job_c_def v)
  have t: "trace sample_shell = []" by (simp add: sample_shell_def)
  show ?thesis
    using unknown_job_id_is_no_such_job [OF wf_sample_shell a, of "''kill''" "empty_command\<lparr>argv := [''kill'', ''7'']\<rparr>" "[]" sample_os "''kill 7''"] wf_sample_shell t i v
    by (simp add: empty_command_def)
qed

subsection \<open>The signal handler\<close>

lemma reap_spec_untracked:
  "\<forall>j \<in> set tbl. pgid j \<noteq> pg \<Longrightarrow> reap_spec tbl (pid, pg, st) = tbl"
  by (induction tbl) auto

lemma reap_spec_find:
  "n \<le> length js \<Longrightarrow>
   reap_spec (drop i (take n js)) (pid, pg, st) =
   drop i (take n (if 0 \<le> find_job_from (\<lambda>j. pgid j = pg) js n i
                   then js[nat (find_job_from (\<lambda>j. pgid j = pg) js n i) :=
                          (js ! nat (find_job_from (\<lambda>j. pgid j = pg) js n i))\<lparr>state := event_state st\<rparr>]
                   else js))"
proof (induction "\<lambda>j::Job. pgid j = pg" js n i rule: find_job_from.induct)
  case (1 js n i)
  let ?P = "\<lambda>j::Job. pgid j = pg"
  show ?case
  proof (cases "i < n")
    case False
    then show ?thesis by (simp add: find_job_from_stop)
  next
    case True
    then have il: "i < length (take n js)" using "1.prems" by simp
    have hd: "drop i (take n js) = js ! i # drop (i + 1) (take n js)"
      using il True by (simp add: Cons_nth_drop_Suc [symmetric])
    show ?thesis
    proof (cases "?P (js ! i)")
      case hit: True
      have f: "find_job_from ?P js n i = int i"
        using True hit by (simp add: find_job_from_hit)
      have "drop i (take n (js[i := (js ! i)\<lparr>state := event_state st\<rparr>])) =
            (js ! i)\<lparr>state := event_state st\<rparr> # drop (i + 1) (take n js)"
        using il True by (simp add: take_update_swap Cons_nth_drop_Suc [symmetric])
      then show ?thesis using hit by (simp add: f hd)
    next
      case miss: False
      have f: "find_job_from ?P js n i = find_job_from ?P js n (i + 1)"
        using True miss by (simp add: find_job_from_miss)
      define k where "k = find_job_from ?P js n (i + 1)"
      define js' where "js' = (if 0 \<le> k then js[nat k := (js ! nat k)\<lparr>state := event_state st\<rparr>] else js)"
      have IH: "reap_spec (drop (i + 1) (take n js)) (pid, pg, st) = drop (i + 1) (take n js')"
        using "1.hyps" [OF True miss] "1.prems" by (simp add: k_def js'_def)
      have "0 \<le> k \<Longrightarrow> i + 1 \<le> nat k"
        using find_job_from_found [of ?P js n "i + 1"] by (simp add: k_def)
      then have same: "js' ! i = js ! i" by (auto simp: js'_def)
      have "i < length (take n js')" using il by (simp add: js'_def)
      then have "drop i (take n js') = js' ! i # drop (i + 1) (take n js')"
        using True by (simp add: Cons_nth_drop_Suc [symmetric])
      then show ?thesis
        using miss IH same unfolding f k_def [symmetric] js'_def [symmetric] by (simp add: hd)
    qed
  qed
qed

lemma wf_emit [simp]: "wf_shell (emit s es) = wf_shell s"
  by (simp add: wf_shell_def emit_def)

lemma wf_set_state [simp]: "wf_shell (set_state s k st) = wf_shell s"
  by (simp add: wf_shell_def set_state_def)

lemma sigchld_step_table:
  fixes pid :: int and pg :: int and status :: wait_status
  assumes "wf_shell s"
  defines "s1 \<equiv> emit s [Waitpid pid status]"
  defines "idx \<equiv> find_job_index_by_pgid s1 pg"
  shows "table (if idx \<ge> 0 then
              (if WIFSTOPPED status then set_state s1 (nat idx) JOB_STOPPED
               else if WIFCONTINUED status then set_state s1 (nat idx) JOB_RUNNING
               else if WIFEXITED status \<or> WIFSIGNALED status
                 then set_state s1 (nat idx) JOB_DONE
               else s1)
            else s1) = reap_spec (table s) (pid, pg, status)"
proof -
  have n: "job_count s \<le> length (jobs s)" using assms(1) by (simp add: wf_shell_def)
  have i: "idx = find_job_from (\<lambda>j. pgid j = pg) (jobs s) (job_count s) 0"
    by (simp add: idx_def s1_def find_job_index_by_pgid_def emit_def)
  have r: "reap_spec (table s) (pid, pg, status) =
        take (job_count s) (if 0 \<le> idx then (jobs s)[nat idx := (jobs s ! nat idx)\<lparr>state := event_state status\<rparr>] else jobs s)"
    using reap_spec_find [OF n, of 0 pid pg status] by (simp add: table_def i)
  show ?thesis
    unfolding r
    by (cases status)
       (simp_all add: table_def s1_def set_state_def emit_def event_state_def
          WIFSTOPPED_def WIFCONTINUED_def WIFEXITED_def WIFSIGNALED_def)
qed

lemma sigchld_handler_frame:
  "job_count (sigchld_handler s evs) = job_count s \<and>
   next_job_id (sigchld_handler s evs) = next_job_id s \<and>
   length (jobs (sigchld_handler s evs)) = length (jobs s)"
  by (induction s evs rule: sigchld_handler.induct)
     (simp_all add: Let_def set_state_def emit_def)

lemma sigchld_handler_table:
  "wf_shell s \<Longrightarrow> table (sigchld_handler s evs) = foldl reap_spec (table s) evs"
proof (induction evs arbitrary: s)
  case Nil
  then show ?case by simp
next
  case (Cons ev evs)
  obtain pid pg status where ev: "ev = (pid, pg, status)" by (cases ev)
  define s1 where "s1 = emit s [Waitpid pid status]"
  define idx where "idx = find_job_index_by_pgid s1 pg"
  define s2 where "s2 = (if idx \<ge> 0 then
              (if WIFSTOPPED status then set_state s1 (nat idx) JOB_STOPPED
               else if WIFCONTINUED status then set_state s1 (nat idx) JOB_RUNNING
               else if WIFEXITED status \<or> WIFSIGNALED status
                 then set_state s1 (nat idx) JOB_DONE
               else s1)
            else s1)"
  have step: "sigchld_handler s (ev # evs) = sigchld_handler s2 evs"
    by (simp add: ev s2_def idx_def s1_def Let_def)
  have wf2: "wf_shell s2" using Cons.prems by (simp add: s2_def s1_def)
  have "table s2 = reap_spec (table s) ev"
    unfolding s2_def idx_def s1_def ev by (rule sigchld_step_table [OF Cons.prems])
  then show ?case
    using Cons.IH [OF wf2] by (simp add: step)
qed

lemma reap_spec_tracked:
  "k < length tbl \<Longrightarrow> pgid (tbl ! k) = pg \<Longrightarrow> \<forall>m. m < k \<longrightarrow> pgid (tbl ! m) \<noteq> pg \<Longrightarrow>
   reap_spec tbl (pid, pg, st) = tbl[k := (tbl ! k)\<lparr>state := event_state st\<rparr>]"
proof (induction tbl arbitrary: k)
  case Nil
  then show ?case by simp
next
  case (Cons j tbl)
  show ?case
  proof (cases k)
    case 0
    then show ?thesis using Cons.prems by simp
  next
    case (Suc k')
    have "pgid j \<noteq> pg" using Cons.prems(3) Suc by auto
    moreover have "reap_spec tbl (pid, pg, st) = tbl[k' := (tbl ! k')\<lparr>state := event_state st\<rparr>]"
      using Cons.prems Suc by (intro Cons.IH) auto
    ultimately show ?thesis using Suc by simp
  qed
qed

text \<open>
  What the handler does with the answers of \<^verbatim>\<open>getpgid\<close> it is given: the table after a
  batch is the old table with the events applied one after the other as the specification
  describes (\<^verbatim>\<open>reap_spec\<close>); the count and the id counter never change.
\<close>

lemma sigchld_handler_refines_reap_spec:
  assumes "wf_shell s"
  shows "table (sigchld_handler s evs) = foldl reap_spec (table s) evs
       \<and> job_count (sigchld_handler s evs) = job_count s
       \<and> next_job_id (sigchld_handler s evs) = next_job_id s
       \<and> ((\<forall>j \<in> set (table s). pgid j \<noteq> pg) \<longrightarrow>
            table (sigchld_handler s [(pid, pg, st)]) = table s)
       \<and> (k < job_count s \<and> pgid (jobs s ! k) = pg \<and> (\<forall>m. m < k \<longrightarrow> pgid (jobs s ! m) \<noteq> pg) \<longrightarrow>
            table (sigchld_handler s [(pid, pg, st)]) =
              (table s)[k := (jobs s ! k)\<lparr>state := event_state st\<rparr>])"
proof -
  have one: "table (sigchld_handler s [(pid, pg, st)]) = reap_spec (table s) (pid, pg, st)"
    using sigchld_handler_table [OF assms, of "[(pid, pg, st)]"]
    by (simp del: sigchld_handler.simps)
  have untracked: "(\<forall>j \<in> set (table s). pgid j \<noteq> pg) \<longrightarrow>
            table (sigchld_handler s [(pid, pg, st)]) = table s"
    unfolding one by (simp add: reap_spec_untracked)
  have tracked: "k < job_count s \<and> pgid (jobs s ! k) = pg \<and> (\<forall>m. m < k \<longrightarrow> pgid (jobs s ! m) \<noteq> pg) \<longrightarrow>
            table (sigchld_handler s [(pid, pg, st)]) =
              (table s)[k := (jobs s ! k)\<lparr>state := event_state st\<rparr>]"
  proof
    assume a: "k < job_count s \<and> pgid (jobs s ! k) = pg \<and> (\<forall>m. m < k \<longrightarrow> pgid (jobs s ! m) \<noteq> pg)"
    have len: "k < length (table s)"
      using a assms by (simp add: table_def wf_shell_def)
    have nth: "\<And>m. m \<le> k \<Longrightarrow> table s ! m = jobs s ! m"
      using a by (simp add: table_def)
    have "reap_spec (table s) (pid, pg, st) = (table s)[k := (table s ! k)\<lparr>state := event_state st\<rparr>]"
      using a len nth by (intro reap_spec_tracked) auto
    then show "table (sigchld_handler s [(pid, pg, st)]) =
              (table s)[k := (jobs s ! k)\<lparr>state := event_state st\<rparr>]"
      unfolding one by (simp add: nth)
  qed
  show ?thesis
    using sigchld_handler_table [OF assms, of evs] sigchld_handler_frame [of s evs]
      untracked tracked by blast
qed

lemma reaped_child_is_never_marked:
  assumes "wf_shell s" and "\<forall>j \<in> set (table s). pgid j \<noteq> - 1"
    and "WIFEXITED st \<or> WIFSIGNALED st"
  shows "table (sigchld_handler s [(pid, getpgid_after_waitpid pg st, st)]) = table s"
proof -
  have "getpgid_after_waitpid pg st = - 1"
    using assms(3) by (simp add: getpgid_after_waitpid_def)
  moreover have "table (sigchld_handler s [(pid, - 1, st)]) = reap_spec (table s) (pid, - 1, st)"
    using sigchld_handler_table [OF assms(1), of "[(pid, - 1, st)]"]
    by (simp del: sigchld_handler.simps)
  ultimately show ?thesis
    using assms(2) by (simp add: reap_spec_untracked del: sigchld_handler.simps)
qed


subsection \<open>Listing the jobs\<close>

lemma print_jobs_from_eq:
  "i \<le> n \<Longrightarrow> n \<le> length js \<Longrightarrow>
   print_jobs_from js n i =
     map (\<lambda>j. Stdout (job_line j)) (filter (\<lambda>j. state j \<noteq> JOB_DONE) (drop i (take n js)))"
proof (induction js n i rule: print_jobs_from.induct)
  case (1 js n i)
  show ?case
  proof (cases "i < n")
    case False
    then show ?thesis using "1.prems" by (subst print_jobs_from.simps) simp
  next
    case True
    then have "i < length (take n js)" using "1.prems" by simp
    then have hd: "drop i (take n js) = js ! i # drop (i + 1) (take n js)"
      using True by (simp add: Cons_nth_drop_Suc [symmetric])
    show ?thesis
    proof (cases "state (js ! i) = JOB_DONE")
      case fin: True
      have "print_jobs_from js n i = print_jobs_from js n (i + 1)"
        using True fin by (subst print_jobs_from.simps) simp
      then show ?thesis
        using "1.IH"(1) [OF True fin] "1.prems" True fin by (simp add: hd)
    next
      case live: False
      have "print_jobs_from js n i = Stdout (job_line (js ! i)) # print_jobs_from js n (i + 1)"
        using True live by (subst print_jobs_from.simps) simp
      then show ?thesis
        using "1.IH"(2) [OF True live] "1.prems" True live by (simp add: hd)
    qed
  qed
qed

lemma print_jobs_eq:
  "wf_shell s \<Longrightarrow>
   print_jobs s =
     s\<lparr>trace := trace s @ map (\<lambda>j. Stdout (job_line j)) (filter (\<lambda>j. state j \<noteq> JOB_DONE) (table s))\<rparr>"
  using print_jobs_from_eq [of 0 "job_count s" "jobs s"]
  by (simp add: print_jobs_def emit_def table_def wf_shell_def)

lemma wf_remove_done_jobs: "wf_shell s \<Longrightarrow> wf_shell (remove_done_jobs s)"
  using remove_done_loop_bounds [of 0 0 "job_count s" "jobs s"]
  by (cases "remove_done_loop (jobs s) (job_count s) 0 0")
     (simp add: wf_shell_def remove_done_jobs_def)

lemma remove_done_jobs_frame:
  "next_job_id (remove_done_jobs s) = next_job_id s \<and> trace (remove_done_jobs s) = trace s
   \<and> history (remove_done_jobs s) = history s"
  by (cases "remove_done_loop (jobs s) (job_count s) 0 0") (simp add: remove_done_jobs_def)

lemma remove_done_jobs_no_done:
  assumes "wf_shell s" and "\<forall>j \<in> set (table s). state j \<noteq> JOB_DONE"
  shows "remove_done_jobs s = s"
proof -
  have "\<forall>i. 0 \<le> i \<and> i < job_count s \<longrightarrow> state (jobs s ! i) \<noteq> JOB_DONE"
  proof (intro allI impI)
    fix i assume "0 \<le> i \<and> i < job_count s"
    then have i: "i < job_count s" by simp
    then have "table s ! i \<in> set (table s)"
      using assms(1) by (intro nth_mem) (simp add: table_def wf_shell_def)
    then show "state (jobs s ! i) \<noteq> JOB_DONE"
      using assms(2) i by (auto simp: table_def)
  qed
  then have "remove_done_loop (jobs s) (job_count s) 0 0 = (job_count s, jobs s)"
    by (intro remove_done_loop_fixed) simp_all
  then show ?thesis by (simp add: remove_done_jobs_def)
qed

text \<open>
  C8, as the code has it. The \<^verbatim>\<open>jobs\<close> builtin first compacts the table and then lists
  it: afterwards the table holds the entries that were not Done, in their old order, one
  line per such entry has been written in that order, and the id counter is as before.
  The listing itself (\<^verbatim>\<open>print_jobs\<close>) only writes; and when no entry is Done the builtin
  does exactly what \<^verbatim>\<open>print_jobs\<close> alone does.
\<close>

theorem jobs_builtin_compacts_then_lists:
  assumes "wf_shell s" and "argv cmd = ''jobs'' # args"
  shows "run_builtin w s cmd full = (Return 0, print_jobs (remove_done_jobs s))
       \<and> table (print_jobs (remove_done_jobs s)) = filter (\<lambda>j. state j \<noteq> JOB_DONE) (table s)
       \<and> trace (print_jobs (remove_done_jobs s)) =
           trace s @ map (\<lambda>j. Stdout (job_line j)) (filter (\<lambda>j. state j \<noteq> JOB_DONE) (table s))
       \<and> next_job_id (print_jobs (remove_done_jobs s)) = next_job_id s
       \<and> print_jobs s =
           s\<lparr>trace := trace s @
                map (\<lambda>j. Stdout (job_line j)) (filter (\<lambda>j. state j \<noteq> JOB_DONE) (table s))\<rparr>
       \<and> ((\<forall>j \<in> set (table s). state j \<noteq> JOB_DONE) \<longrightarrow>
            print_jobs (remove_done_jobs s) = print_jobs s)"
proof -
  let ?live = "filter (\<lambda>j. state j \<noteq> JOB_DONE) (table s)"
  have n: "job_count s \<le> length (jobs s)" using assms(1) by (simp add: wf_shell_def)
  have t: "table (remove_done_jobs s) = ?live"
    using n by (rule table_remove_done_jobs)
  have wf': "wf_shell (remove_done_jobs s)"
    using assms(1) by (rule wf_remove_done_jobs)
  have p: "print_jobs (remove_done_jobs s) =
      (remove_done_jobs s)\<lparr>trace := trace s @ map (\<lambda>j. Stdout (job_line j)) ?live\<rparr>"
    using print_jobs_eq [OF wf'] by (simp add: t remove_done_jobs_frame)
  have 1: "run_builtin w s cmd full = (Return 0, print_jobs (remove_done_jobs s))"
    using assms(2) by (simp add: run_builtin_def)
  have 2: "table (print_jobs (remove_done_jobs s)) = ?live"
    using t by (simp add: p table_def)
  have 3: "trace (print_jobs (remove_done_jobs s)) = trace s @ map (\<lambda>j. Stdout (job_line j)) ?live"
    by (simp add: p)
  have 4: "next_job_id (print_jobs (remove_done_jobs s)) = next_job_id s"
    by (simp add: p remove_done_jobs_frame)
  have 5: "print_jobs s = s\<lparr>trace := trace s @ map (\<lambda>j. Stdout (job_line j)) ?live\<rparr>"
    using assms(1) by (rule print_jobs_eq)
  have 6: "(\<forall>j \<in> set (table s). state j \<noteq> JOB_DONE) \<longrightarrow>
            print_jobs (remove_done_jobs s) = print_jobs s"
    using remove_done_jobs_no_done [OF assms(1)] by simp
  show ?thesis using 1 2 3 4 5 6 by blast
qed

text \<open>
  C8 as stated fails: on a table with a Done entry the \<^verbatim>\<open>jobs\<close> builtin removes that
  entry, so the table after the call is not the table before it.
\<close>

theorem jobs_builtin_mutates_counterexample:
  "table (snd (run_builtin sample_os sample_shell jobs_cmd ''jobs'')) = [job_a, job_c]
   \<and> table sample_shell = [job_a, job_b, job_c]
   \<and> table (snd (run_builtin sample_os sample_shell jobs_cmd ''jobs'')) \<noteq> table sample_shell"
proof -
  have n: "job_count sample_shell \<le> length (jobs sample_shell)"
    using wf_sample_shell by (simp add: wf_shell_def)
  have "table (snd (run_builtin sample_os sample_shell jobs_cmd ''jobs'')) =
        table (remove_done_jobs sample_shell)"
    by (simp add: run_builtin_def jobs_cmd_def print_jobs_def emit_def table_def)
  also have "\<dots> = [job_a, job_c]"
    using table_remove_done_jobs [OF n]
    by (simp add: table_sample_shell job_a_def job_b_def job_c_def)
  finally show ?thesis by (simp add: table_sample_shell)
qed

theorem jobs_builtin_compacts_then_lists_witness:
  "wf_shell sample_shell
   \<and> run_builtin sample_os sample_shell jobs_cmd ''jobs'' =
       (Return 0, print_jobs (remove_done_jobs sample_shell))
   \<and> table (print_jobs (remove_done_jobs sample_shell)) = [job_a, job_c]
   \<and> trace (print_jobs (remove_done_jobs sample_shell)) =
       [Stdout (''[1] 100  Running   sleep 100 &'' @ newline),
        Stdout (''[3] 300  Stopped   vi'' @ newline)]
   \<and> wf_shell live_shell
   \<and> map state (table live_shell) = [JOB_RUNNING, JOB_STOPPED]
   \<and> print_jobs (remove_done_jobs live_shell) = print_jobs live_shell"
proof -
  have a: "argv jobs_cmd = ''jobs'' # []" by (simp add: jobs_cmd_def)
  have l: "job_line job_a = ''[1] 100  Running   sleep 100 &'' @ newline"
    "job_line job_c = ''[3] 300  Stopped   vi'' @ newline"
    by (simp_all add: job_line_def job_a_def job_c_def show_int_def show_nat.simps pad_right_def)
  have t: "trace sample_shell = []" by (simp add: sample_shell_def)
  have first: "run_builtin sample_os sample_shell jobs_cmd ''jobs'' =
       (Return 0, print_jobs (remove_done_jobs sample_shell))
   \<and> table (print_jobs (remove_done_jobs sample_shell)) = [job_a, job_c]
   \<and> trace (print_jobs (remove_done_jobs sample_shell)) =
       [Stdout (''[1] 100  Running   sleep 100 &'' @ newline),
        Stdout (''[3] 300  Stopped   vi'' @ newline)]"
    using jobs_builtin_compacts_then_lists [OF wf_sample_shell a, of sample_os "''jobs''"]
    by (simp add: table_sample_shell job_a_def [symmetric] l t)
       (simp add: job_a_def job_b_def job_c_def)
  have wl: "wf_shell live_shell"
    by (simp add: wf_shell_def live_shell_def MAX_JOBS_def)
  have tl: "table live_shell = [job_a, job_c]"
    by (simp add: table_def live_shell_def)
  have sl: "map state (table live_shell) = [JOB_RUNNING, JOB_STOPPED]"
    by (simp add: tl job_a_def job_c_def)
  have nd: "\<forall>j \<in> set (table live_shell). state j \<noteq> JOB_DONE"
    by (simp add: tl job_a_def job_c_def)
  have second: "print_jobs (remove_done_jobs live_shell) = print_jobs live_shell"
    using jobs_builtin_compacts_then_lists [OF wl a, of sample_os "''jobs''"] nd by blast
  show ?thesis
    using wf_sample_shell first wl sl second by blast
qed

section \<open>Properties of the parser\<close>

lemma parse_tokens_dangling:
  "list_all well_formed_item items \<Longrightarrow>
   parse_tokens (stream_tokens items @ [op_token r]) cmd = parse_tokens (stream_tokens items) cmd"
proof (induction items arbitrary: cmd)
  case Nil
  then show ?case by (cases r) (simp_all add: stream_tokens_def op_token_def)
next
  case (Cons it items)
  have wf: "list_all well_formed_item items" using Cons.prems by simp
  note IH = Cons.IH [OF wf, unfolded stream_tokens_def]
  show ?case
  proof (cases it)
    case (Arg a)
    then have "\<not> is_operator a" using Cons.prems by simp
    then show ?thesis using IH Arg by (simp add: stream_tokens_def is_operator_def)
  next
    case (Redir r' f)
    then show ?thesis using IH by (cases r') (simp_all add: stream_tokens_def op_token_def)
  qed
qed

lemma parse_tokens_items:
  "list_all well_formed_item items \<Longrightarrow>
   length (argv cmd) + length (args_of items) < MAX_ARGS - 1 \<Longrightarrow>
   parse_tokens (stream_tokens items) cmd = foldl apply_item cmd items"
proof (induction items arbitrary: cmd)
  case Nil
  then show ?case by (simp add: stream_tokens_def)
next
  case (Cons it items)
  have wf: "list_all well_formed_item items" using Cons.prems by simp
  have lt: "length (argv cmd) < MAX_ARGS - 1" using Cons.prems(2) by simp
  note IH = Cons.IH [OF wf, unfolded stream_tokens_def]
  show ?case
  proof (cases it)
    case (Arg a)
    then have "\<not> is_operator a" using Cons.prems by simp
    moreover have "parse_tokens (concat (map item_tokens items)) (cmd\<lparr>argv := argv cmd @ [a]\<rparr>) =
        foldl apply_item (cmd\<lparr>argv := argv cmd @ [a]\<rparr>) items"
      using Cons.prems(2) Arg by (intro IH) (simp add: args_of_def)
    ultimately show ?thesis using Arg lt by (simp add: stream_tokens_def is_operator_def)
  next
    case (Redir r' f)
    have "\<And>c. length (argv c) = length (argv cmd) \<Longrightarrow>
        parse_tokens (concat (map item_tokens items)) c = foldl apply_item c items"
      using Cons.prems(2) Redir by (intro IH) (simp add: args_of_def)
    then show ?thesis using Redir lt by (cases r') (simp_all add: stream_tokens_def op_token_def)
  qed
qed

lemma argv_foldl_apply_item:
  "argv (foldl apply_item cmd items) = argv cmd @ args_of items"
proof (induction items arbitrary: cmd)
  case Nil
  then show ?case by (simp add: args_of_def)
next
  case (Cons it items)
  show ?case
  proof (cases it)
    case (Arg a)
    then show ?thesis using Cons.IH by (simp add: args_of_def)
  next
    case (Redir r f)
    then show ?thesis using Cons.IH by (cases r) (simp_all add: args_of_def)
  qed
qed

lemma tokens_decompose:
  "\<exists>items. list_all well_formed_item items \<and>
     (toks = stream_tokens items \<or> (\<exists>r. toks = stream_tokens items @ [op_token r]))"
proof (induction toks rule: length_induct)
  case (1 toks)
  show ?case
  proof (cases toks)
    case Nil
    then have "list_all well_formed_item [] \<and> toks = stream_tokens []"
      by (simp add: stream_tokens_def)
    then show ?thesis by blast
  next
    case (Cons tok rest)
    show ?thesis
    proof (cases "is_operator tok")
      case False
      obtain items where it: "list_all well_formed_item items"
          "rest = stream_tokens items \<or> (\<exists>r. rest = stream_tokens items @ [op_token r])"
        using "1.IH" [rule_format, of rest] Cons by auto
      have "list_all well_formed_item (Arg tok # items)" using it(1) False by simp
      moreover have "toks = stream_tokens (Arg tok # items) \<or>
          (\<exists>r. toks = stream_tokens (Arg tok # items) @ [op_token r])"
        using it(2) Cons by (auto simp: stream_tokens_def)
      ultimately show ?thesis by blast
    next
      case True
      then obtain r where r: "tok = op_token r"
        unfolding is_operator_def op_token_def
        by (metis redir_op.simps(7,8,9))
      show ?thesis
      proof (cases rest)
        case Nil
        then have "list_all well_formed_item [] \<and> toks = stream_tokens [] @ [op_token r]"
          using Cons r by (simp add: stream_tokens_def)
        then show ?thesis by blast
      next
        case (Cons f rest')
        obtain items where it: "list_all well_formed_item items"
            "rest' = stream_tokens items \<or> (\<exists>r. rest' = stream_tokens items @ [op_token r])"
          using "1.IH" [rule_format, of rest'] \<open>toks = tok # rest\<close> Cons by auto
        have "list_all well_formed_item (Redir r f # items)" using it(1) by simp
        moreover have "toks = stream_tokens (Redir r f # items) \<or>
            (\<exists>r'. toks = stream_tokens (Redir r f # items) @ [op_token r'])"
          using it(2) Cons \<open>toks = tok # rest\<close> r by (auto simp: stream_tokens_def)
        ultimately show ?thesis by blast
      qed
    qed
  qed
qed

lemma argv_parse_tokens_capacity:
  "list_all well_formed_item items \<Longrightarrow> length (argv cmd) \<le> MAX_ARGS - 1 \<Longrightarrow>
   argv (parse_tokens (stream_tokens items) cmd) = take (MAX_ARGS - 1) (argv cmd @ args_of items)"
proof (induction items arbitrary: cmd)
  case Nil
  then show ?case by (simp add: stream_tokens_def args_of_def)
next
  case (Cons it items)
  have wf: "list_all well_formed_item items" using Cons.prems by simp
  note IH = Cons.IH [OF wf, unfolded stream_tokens_def]
  show ?case
  proof (cases "length (argv cmd) < MAX_ARGS - 1")
    case False
    then have full: "length (argv cmd) = MAX_ARGS - 1" using Cons.prems(2) by simp
    have "parse_tokens (stream_tokens (it # items)) cmd = cmd"
      using False by (cases it) (simp_all add: stream_tokens_def)
    then show ?thesis using full by simp
  next
    case True
    show ?thesis
    proof (cases it)
      case (Arg a)
      then have "\<not> is_operator a" using Cons.prems by simp
      moreover have "argv (parse_tokens (concat (map item_tokens items)) (cmd\<lparr>argv := argv cmd @ [a]\<rparr>)) =
          take (MAX_ARGS - 1) (argv (cmd\<lparr>argv := argv cmd @ [a]\<rparr>) @ args_of items)"
        using True by (intro IH) simp
      ultimately show ?thesis using Arg True
        by (simp add: stream_tokens_def is_operator_def args_of_def)
    next
      case (Redir r' f)
      have "\<And>c. argv c = argv cmd \<Longrightarrow>
          argv (parse_tokens (concat (map item_tokens items)) c) =
            take (MAX_ARGS - 1) (argv cmd @ args_of items)"
        using IH [of _] Cons.prems(2) by metis
      then show ?thesis using Redir True
        by (cases r') (simp_all add: stream_tokens_def op_token_def args_of_def)
    qed
  qed
qed

text \<open>
  C9, as the code has it. When the tokens are plain arguments and complete redirections
  (an operator and the token after it, whatever that token is) followed by one last
  operator, so that the parser reaches the last token in operator position with nothing
  after it, the descriptor is the one the parser builds from the stream without that
  token: the operator records no redirection and disturbs nothing else (the parser
  returns a descriptor and nothing more, so there is no error to report). The arguments
  of that descriptor are the plain tokens in their order, as far as \<^verbatim>\<open>argv\<close> has room
  (\<^verbatim>\<open>MAX_ARGS - 1\<close> of them); when they all fit, the descriptor also has every
  redirection that has a file name.
\<close>

theorem dangling_redirection_is_ignored:
  assumes "list_all well_formed_item items"
  shows "parse_tokens (stream_tokens items @ [op_token r]) cmd =
           parse_tokens (stream_tokens items) cmd
       \<and> argv (parse_tokens (stream_tokens items @ [op_token r]) empty_command) =
           take (MAX_ARGS - 1) (args_of items)
       \<and> (length (args_of items) < MAX_ARGS - 1 \<longrightarrow>
            parse_tokens (stream_tokens items @ [op_token r]) empty_command =
              foldl apply_item empty_command items
          \<and> argv (parse_tokens (stream_tokens items @ [op_token r]) empty_command) = args_of items)"
proof -
  have a: "parse_tokens (stream_tokens items @ [op_token r]) cmd =
           parse_tokens (stream_tokens items) cmd" for cmd
    using assms by (rule parse_tokens_dangling)
  have "length (args_of items) < MAX_ARGS - 1 \<Longrightarrow>
      parse_tokens (stream_tokens items) empty_command = foldl apply_item empty_command items"
    using assms by (intro parse_tokens_items) (simp_all add: empty_command_def)
  moreover have "argv (parse_tokens (stream_tokens items) empty_command) =
      take (MAX_ARGS - 1) (args_of items)"
    using argv_parse_tokens_capacity [OF assms, of empty_command]
    by (simp add: empty_command_def)
  ultimately show ?thesis
    using a by (simp add: argv_foldl_apply_item) (simp add: empty_command_def)
qed

theorem dangling_redirection_is_ignored_witness:
  "list_all well_formed_item
     [Arg ''sort'', Arg ''-r'', Redir Redir_in ''in'', Redir Redir_out ''out'', Arg ''2'']
   \<and> strtok_all ''sort -r < in > out 2 >>'' whitespace =
       stream_tokens [Arg ''sort'', Arg ''-r'', Redir Redir_in ''in'', Redir Redir_out ''out'', Arg ''2'']
         @ [op_token Redir_append]
   \<and> parse_command ''sort -r < in > out 2 >>'' =
       \<lparr>argv = [''sort'', ''-r'', ''2''], infile = Some ''in'', outfile = Some ''out'', append_out = 0\<rparr>
   \<and> parse_command ''sort -r < in > out 2 >>'' = parse_command ''sort -r < in > out 2''"
proof -
  let ?items = "[Arg ''sort'', Arg ''-r'', Redir Redir_in ''in'', Redir Redir_out ''out'', Arg ''2'']"
  have wf: "list_all well_formed_item ?items"
    by (simp add: is_operator_def)
  have t1: "strtok_all ''sort -r < in > out 2 >>'' whitespace =
        stream_tokens ?items @ [op_token Redir_append]"
    by (simp add: strtok_all.simps strtok_r_def whitespace_def stream_tokens_def op_token_def)
  have t2: "strtok_all ''sort -r < in > out 2'' whitespace = stream_tokens ?items"
    by (simp add: strtok_all.simps strtok_r_def whitespace_def stream_tokens_def op_token_def)
  have n: "length (args_of ?items) < MAX_ARGS - 1"
    by (simp add: args_of_def MAX_ARGS_def)
  note dri = dangling_redirection_is_ignored [OF wf, of Redir_append empty_command]
  have eq: "parse_tokens (stream_tokens ?items @ [op_token Redir_append]) empty_command =
        parse_tokens (stream_tokens ?items) empty_command"
    using dri by (rule conjunct1)
  have full: "parse_tokens (stream_tokens ?items @ [op_token Redir_append]) empty_command =
        foldl apply_item empty_command ?items"
    using dri n by blast
  have v: "foldl apply_item empty_command ?items =
      \<lparr>argv = [''sort'', ''-r'', ''2''], infile = Some ''in'', outfile = Some ''out'', append_out = 0\<rparr>"
    by (simp add: empty_command_def)
  have p1: "parse_command ''sort -r < in > out 2 >>'' =
      parse_tokens (stream_tokens ?items @ [op_token Redir_append]) empty_command"
    by (simp only: parse_command_def t1)
  have p2: "parse_command ''sort -r < in > out 2'' =
      parse_tokens (stream_tokens ?items) empty_command"
    by (simp only: parse_command_def t2)
  show ?thesis
    unfolding p1 p2 using wf t1 eq full v by simp
qed

text \<open>
  C9 as stated fails. In \<^verbatim>\<open>cat > >\<close> the last token is a redirection operator with
  nothing after it, yet an output redirection is recorded, with that token as the file
  name of the operator before it, and that operator is no argument. And of 128 plain
  tokens before a last operator only 127 become arguments.
\<close>

theorem dangling_operator_counterexample:
  "strtok_all ''cat > >'' whitespace = [''cat'', ''>'', ''>'']
   \<and> parse_command ''cat > >'' =
        \<lparr>argv = [''cat''], infile = None, outfile = Some ''>'', append_out = 0\<rparr>
   \<and> parse_command ''cat >'' =
        \<lparr>argv = [''cat''], infile = None, outfile = None, append_out = 0\<rparr>
   \<and> length (replicate 128 ''a'' @ [''>'']) = 129
   \<and> argv (parse_tokens (replicate 128 ''a'' @ [''>'']) empty_command) = replicate 127 ''a''"
  by code_simp

section \<open>Properties of the launch\<close>

lemma emit_emit [simp]: "emit (emit s es) es' = emit s (es @ es')"
  by (simp add: emit_def)

lemma emit_Nil [simp]: "emit s [] = s"
  by (simp add: emit_def)

lemma make_pipes_ok:
  "\<forall>i. k \<le> i \<and> i < nseg - 1 \<longrightarrow> pipe_ok w i \<Longrightarrow>
   make_pipes w s nseg k = (True, emit s (map Pipe [k..<nseg - 1]))"
proof (induction w s nseg k rule: make_pipes.induct)
  case (1 w s nseg k)
  show ?case
  proof (cases "k < nseg - 1")
    case False
    then show ?thesis by (subst make_pipes.simps) simp
  next
    case True
    then have ok: "pipe_ok w k" using "1.prems" by simp
    have "make_pipes w s nseg k = make_pipes w (emit s [Pipe k]) nseg (k + 1)"
      using True ok by (subst make_pipes.simps) simp
    also have "\<dots> = (True, emit (emit s [Pipe k]) (map Pipe [k + 1..<nseg - 1]))"
      using "1.IH" [OF True ok] "1.prems" by simp
    finally show ?thesis using True by (simp add: upt_conv_Cons)
  qed
qed

lemma fork_stages_stop:
  "\<not> k < length segments \<Longrightarrow> fork_stages w s segments background k pg = (Some pg, s)"
  by (subst fork_stages.simps) simp

lemma fork_stages_fail:
  "k < length segments \<Longrightarrow> fork_res w k = - 1 \<Longrightarrow>
   fork_stages w s segments background k pg = (None, emit s [Perror ''fork''])"
  by (subst fork_stages.simps) simp

lemma fork_stages_step:
  "k < length segments \<Longrightarrow> fork_res w k \<noteq> - 1 \<Longrightarrow>
   pg' = (if pg = 0 then fork_res w k else pg) \<Longrightarrow>
   fork_stages w s segments background k pg =
     fork_stages w (emit s (stage_effects w segments background pg' k))
       segments background (k + 1) pg'"
  by (subst fork_stages.simps) (simp add: Let_def stage_effects_def stage_command_def)

lemma fork_stages_ok:
  "pg \<noteq> 0 \<Longrightarrow> \<forall>i. k \<le> i \<and> i < length segments \<longrightarrow> fork_res w i \<noteq> - 1 \<Longrightarrow>
   fork_stages w s segments background k pg =
     (Some pg, emit s (concat (map (stage_effects w segments background pg) [k..<length segments])))"
proof (induction "length segments - k" arbitrary: k s)
  case 0
  then show ?case by (simp add: fork_stages_stop)
next
  case (Suc n)
  then have lt: "k < length segments" and ok: "fork_res w k \<noteq> - 1" by auto
  have "fork_stages w s segments background k pg =
        fork_stages w (emit s (stage_effects w segments background pg k))
          segments background (k + 1) pg"
    using lt ok Suc.prems(1) by (intro fork_stages_step) simp_all
  also have "\<dots> = (Some pg, emit (emit s (stage_effects w segments background pg k))
        (concat (map (stage_effects w segments background pg) [k + 1..<length segments])))"
    using Suc.hyps(2) Suc.prems by (intro Suc.hyps(1)) auto
  finally have "fork_stages w s segments background k pg =
      (Some pg, emit s (stage_effects w segments background pg k @
         concat (map (stage_effects w segments background pg) [k + 1..<length segments])))"
    by simp
  moreover have "[k..<length segments] = k # [k + 1..<length segments]"
    using lt by (simp add: upt_conv_Cons)
  ultimately show ?case by simp
qed

lemma fork_stages_start:
  assumes "segments \<noteq> []" and "\<forall>i. i < length segments \<longrightarrow> 0 < fork_res w i"
  shows "fork_stages w s segments background 0 0 =
     (Some (fork_res w 0),
      emit s (concat (map (stage_effects w segments background (fork_res w 0)) [0..<length segments])))"
proof -
  have pos: "0 < fork_res w 0" using assms by (cases segments) auto
  have len: "0 < length segments" using assms(1) by simp
  have "fork_stages w s segments background 0 0 =
        fork_stages w (emit s (stage_effects w segments background (fork_res w 0) 0))
          segments background (0 + 1) (fork_res w 0)"
    using pos len by (intro fork_stages_step) simp_all
  also have "\<dots> = (Some (fork_res w 0),
      emit (emit s (stage_effects w segments background (fork_res w 0) 0))
        (concat (map (stage_effects w segments background (fork_res w 0)) [0 + 1..<length segments])))"
  proof (rule fork_stages_ok)
    show "fork_res w 0 \<noteq> 0" using pos by simp
    show "\<forall>i. 0 + 1 \<le> i \<and> i < length segments \<longrightarrow> fork_res w i \<noteq> - 1"
      using assms(2) by fastforce
  qed
  finally show ?thesis using len by (simp add: upt_conv_Cons)
qed

lemma add_job_entry_full: "MAX_JOBS \<le> job_count s \<Longrightarrow> add_job_entry s pg cmd st = s"
  by (simp add: add_job_entry_def)

lemma launch_ok:
  assumes "segments = split_pipeline line MAX_CMDS" and "segments \<noteq> []"
    and "\<not> (length segments = 1 \<and> is_builtin (stage_command segments 0))"
    and "\<forall>i. i < length segments - 1 \<longrightarrow> pipe_ok w i"
    and "\<forall>i. i < length segments \<longrightarrow> 0 < fork_res w i"
  shows "execute_line w s line background full =
     (let s3 = emit s (launch_effects w segments background) in
      if background then
        (let s4 = add_job_entry s3 (fork_res w 0) full JOB_RUNNING
         in (Return (),
             emit s4 [Stdout (''[%'' @ show_int (id_job (jobs s4 ! (job_count s4 - 1)))
                            @ ''] started in background, PGID='' @ show_int (fork_res w 0) @ newline),
                      Tcsetpgrp (getpgrp_res w)]))
      else
        (Return (),
         emit (launch_wait (wait_res w) (emit s3 [Tcsetpgrp (fork_res w 0)]) (fork_res w 0) full)
           [Tcsetpgrp (getpgrp_res w)]))"
proof -
  have p: "make_pipes w s (length segments) 0 = (True, emit s (map Pipe [0..<length segments - 1]))"
    using assms(4) by (intro make_pipes_ok) simp
  have f: "fork_stages w (emit s (map Pipe [0..<length segments - 1])) segments background 0 0 =
     (Some (fork_res w 0),
      emit (emit s (map Pipe [0..<length segments - 1]))
        (concat (map (stage_effects w segments background (fork_res w 0)) [0..<length segments])))"
    using assms(2,5) by (rule fork_stages_start)
  have nb: "(length segments = 1 \<and>
      is_builtin (parse_command (take (MAX_INPUT - 1) (segments ! 0)))) = False"
    using assms(3) by (simp add: stage_command_def)
  have len: "(length segments \<le> 0) = False" using assms(2) by simp
  show ?thesis
    unfolding execute_line_def assms(1) [symmetric] Let_def nb len p close_pipes_def
      launch_effects_def
    by (simp add: f del: One_nat_def)
qed

text \<open>
  C10. With \<^verbatim>\<open>MAX_JOBS\<close> entries in the table \<^verbatim>\<open>add_job_entry\<close> returns the state it was
  given: no entry, no new id, no output. A background launch in that state still creates
  its processes and then prints the id of the last entry of the table (\<^verbatim>\<open>jobs[job_count-1]\<close>),
  which belongs to an older job, next to the process group id of the new pipeline; the
  table, the count and the id counter are as before.
\<close>

theorem full_table_registration_is_silent:
  assumes "wf_shell s" and "job_count s = MAX_JOBS"
    and "segments = split_pipeline line MAX_CMDS" and "segments \<noteq> []"
    and "\<not> (length segments = 1 \<and> is_builtin (stage_command segments 0))"
    and "\<forall>i. i < length segments - 1 \<longrightarrow> pipe_ok w i"
    and "\<forall>i. i < length segments \<longrightarrow> 0 < fork_res w i"
  shows "add_job_entry s pg cmd st = s
       \<and> execute_line w s line True full =
           (Return (),
            s\<lparr>trace := trace s @ launch_effects w segments True @
                [Stdout (''[%'' @ show_int (id_job (last (table s)))
                          @ ''] started in background, PGID='' @ show_int (fork_res w 0) @ newline),
                 Tcsetpgrp (getpgrp_res w)]\<rparr>)"
proof -
  have full: "MAX_JOBS \<le> job_count s" using assms(2) by simp
  have "table s = jobs s" using assms(1,2) by (simp add: table_def wf_shell_def)
  moreover have "jobs s \<noteq> []" using assms(1) by (auto simp: wf_shell_def MAX_JOBS_def)
  ultimately have l: "last (table s) = jobs s ! (job_count s - 1)"
    using assms(1,2) by (simp add: last_conv_nth wf_shell_def)
  have "MAX_JOBS \<le> job_count (emit s (launch_effects w segments True))"
    using full by (simp add: emit_def)
  then have a: "add_job_entry (emit s (launch_effects w segments True)) (fork_res w 0) full JOB_RUNNING
      = emit s (launch_effects w segments True)"
    by (rule add_job_entry_full)
  show ?thesis
    using launch_ok [OF assms(3-7), of s True full]
    by (simp add: add_job_entry_full [OF full] a l Let_def) (simp add: emit_def)
qed


lemma wf_full_shell: "wf_shell full_shell"
  by (simp add: wf_shell_def full_shell_def MAX_JOBS_def)

lemma split_sleep: "split_pipeline ''sleep 5'' MAX_CMDS = [''sleep 5'']"
  by (simp add: split_pipeline_def strtok_all.simps strtok_r_def MAX_CMDS_def)

lemma cmd_sleep: "stage_command [''sleep 5''] 0 = \<lparr>argv = [''sleep'', ''5''], infile = None, outfile = None, append_out = 0\<rparr>"
  by (simp add: stage_command_def parse_command_def strtok_all.simps strtok_r_def whitespace_def
      MAX_INPUT_def MAX_ARGS_def empty_command_def)

lemma last_full: "id_job (last (table full_shell)) = 64"
  by (simp add: table_def full_shell_def last_map)

theorem full_table_registration_is_silent_witness:
  "wf_shell full_shell \<and> job_count full_shell = MAX_JOBS
   \<and> add_job_entry full_shell 101 ''sleep 5 &'' JOB_RUNNING = full_shell
   \<and> execute_line sample_os full_shell ''sleep 5'' True ''sleep 5 &'' =
        (Return (),
         full_shell\<lparr>trace :=
           [Fork 101 [Signal_dfl SIGINT, Signal_dfl SIGTSTP, Child_setpgid 101,
                      Execvp ''sleep'' [''sleep'', ''5'']],
            Setpgid 101 101,
            Stdout (''[%64] started in background, PGID=101'' @ newline),
            Tcsetpgrp 50]\<rparr>)"
proof -
  have c: "job_count full_shell = MAX_JOBS" by (simp add: full_shell_def MAX_JOBS_def)
  have nb: "\<not> (length [''sleep 5''] = 1 \<and> is_builtin (stage_command [''sleep 5''] 0))"
    by (simp add: cmd_sleep is_builtin_def)
  have p: "\<forall>i. i < length [''sleep 5''] - 1 \<longrightarrow> pipe_ok sample_os i" by simp
  have f: "\<forall>i. i < length [''sleep 5''] \<longrightarrow> 0 < fork_res sample_os i"
    by (simp add: sample_os_def)
  have le: "launch_effects sample_os [''sleep 5''] True =
      [Fork 101 [Signal_dfl SIGINT, Signal_dfl SIGTSTP, Child_setpgid 101,
                      Execvp ''sleep'' [''sleep'', ''5'']],
            Setpgid 101 101]"
    by (simp add: launch_effects_def stage_effects_def cmd_sleep child_run_def
        setup_redirections_def sample_os_def is_builtin_def empty_command_def)
  have t: "trace full_shell = []" by (simp add: full_shell_def)
  have sh: "show_int 64 = ''64''" "show_int 101 = ''101''"
    by (simp_all add: show_int_def show_nat.simps)
  have fr: "fork_res sample_os 0 = 101" "getpgrp_res sample_os = 50"
    by (simp_all add: sample_os_def)
  show ?thesis
    using full_table_registration_is_silent [OF wf_full_shell c split_sleep [symmetric] _ nb p f,
        of 101 "''sleep 5 &''" JOB_RUNNING "''sleep 5 &''"]
    by (simp add: wf_full_shell c le t last_full sh fr)
qed

lemma split_yes: "split_pipeline ''yes | head'' MAX_CMDS = [''yes '', ''head'']"
  by (simp add: split_pipeline_def strtok_all.simps strtok_r_def MAX_CMDS_def)

text \<open>
  C2, at a launch whose second \<^verbatim>\<open>fork\<close> fails. The shell has created the pipe and the
  first child, which has taken the terminal and runs \<^verbatim>\<open>yes\<close>; on the failure it prints
  the error and returns. Nothing follows in the trace: no signal to the child, no wait
  for it, no closing of the pipe, no handing back of the terminal, and no job entry.
\<close>

theorem failed_fork_leaves_earlier_child:
  "execute_line fork_fails_os sample_shell ''yes | head'' False ''yes | head'' =
     (Return (),
      sample_shell\<lparr>trace :=
        [Pipe 0,
         Fork 101 [Signal_dfl SIGINT, Signal_dfl SIGTSTP, Child_setpgid 101, Child_tcsetpgrp 101,
                   Dup2_pipe 0 1 STDOUT_FILENO, Close_pipe 0 0, Close_pipe 0 1,
                   Execvp ''yes'' [''yes'']],
         Setpgid 101 101,
         Perror ''fork'']\<rparr>)"
  by (simp add: execute_line_def split_yes Let_def make_pipes.simps fork_stages.simps
      parse_command_def strtok_all.simps strtok_r_def whitespace_def MAX_INPUT_def MAX_ARGS_def
      empty_command_def is_builtin_def fork_fails_os_def sample_os_def child_run_def
      setup_redirections_def emit_def sample_shell_def)

section \<open>What each operation keeps\<close>

lemma keys_emit [simp]: "keys (emit s es) = keys s"
  by (simp add: keys_def table_def emit_def)

lemma next_emit [simp]: "next_job_id (emit s es) = next_job_id s"
  by (simp add: emit_def)

lemma trace_emit [simp]: "trace (emit s es) = trace s @ es"
  by (simp add: emit_def)

lemma keys_set_state [simp]: "keys (set_state s k st) = keys s"
proof -
  have "map job_key ((jobs s)[k := (jobs s ! k)\<lparr>state := st\<rparr>]) = map job_key (jobs s)"
    by (cases "k < length (jobs s)")
       (simp_all add: map_update job_key_def list_update_same_conv list_update_beyond not_less)
  then show ?thesis
    by (simp add: keys_def table_def set_state_def take_map [symmetric])
qed

lemma next_set_state [simp]: "next_job_id (set_state s k st) = next_job_id s"
  by (simp add: set_state_def)

lemma trace_set_state [simp]: "trace (set_state s k st) = trace s"
  by (simp add: set_state_def)

lemma keeps_refl [simp]: "keeps s s"
  by (simp add: keeps_def)

lemma keeps_trans: "keeps s s1 \<Longrightarrow> keeps s1 s2 \<Longrightarrow> keeps s s2"
  unfolding keeps_def by (auto intro: subseq_order.order_trans)

lemma keeps_emit [simp]: "keeps s (emit s es)"
  by (simp add: keeps_def)

lemma keeps_set_state [simp]: "keeps s (set_state s k st)"
  by (simp add: keeps_def)

lemma keeps_remove_done_jobs [simp]: "keeps s (remove_done_jobs s)"
proof -
  have "wf_shell s \<Longrightarrow> subseq (keys (remove_done_jobs s)) (keys s)"
    using table_remove_done_jobs [of s]
    by (simp add: keys_def wf_shell_def subseq_map)
  then show ?thesis
    by (simp add: keeps_def wf_remove_done_jobs remove_done_jobs_frame)
qed

lemma quiet_refl [simp]: "quiet s s"
  by (simp add: quiet_def)

lemma quiet_trans: "quiet s s1 \<Longrightarrow> quiet s1 s2 \<Longrightarrow> quiet s s2"
  unfolding quiet_def by (metis append.assoc list_all_append)

lemma quiet_emit: "list_all (\<lambda>e. \<not> is_launch e) es \<Longrightarrow> quiet s (emit s es)"
  by (auto simp: quiet_def)

lemma quiet_set_state [simp]: "quiet s (set_state s k st)"
  by (simp add: quiet_def)

lemma quiet_remove_done_jobs [simp]: "quiet s (remove_done_jobs s)"
  by (simp add: quiet_def remove_done_jobs_frame)

lemma quiet_print_jobs [simp]: "wf_shell s \<Longrightarrow> quiet s (print_jobs s)"
  by (simp add: quiet_def print_jobs_eq list_all_iff is_launch_def)

lemma keeps_print_jobs [simp]: "keeps s (print_jobs s)"
  by (simp add: print_jobs_def)

lemma fg_wait_keeps_quiet: "keeps s (fg_wait ws s idx) \<and> quiet s (fg_wait ws s idx)"
proof (induction ws arbitrary: s)
  case Nil
  then show ?case by simp
next
  case (Cons a ws)
  obtain pid status where a: "a = (pid, status)" by (cases a)
  let ?s1 = "emit s [Waitpid pid status]"
  have k1: "keeps s ?s1" and q1: "quiet s ?s1"
    by (simp_all add: quiet_emit is_launch_def)
  show ?case
  proof (cases "WIFSTOPPED status")
    case True
    then have "fg_wait (a # ws) s idx = set_state ?s1 idx JOB_STOPPED"
      by (simp add: a)
    then show ?thesis
      using keeps_trans [OF k1 keeps_set_state] quiet_trans [OF q1 quiet_set_state] by simp
  next
    case False
    then have "fg_wait (a # ws) s idx = fg_wait ws ?s1 idx"
      by (simp add: a)
    then show ?thesis
      using Cons.IH [of ?s1] keeps_trans [OF k1] quiet_trans [OF q1] by simp
  qed
qed

lemma run_builtin_keeps_quiet:
  "keeps s (snd (run_builtin w s cmd full)) \<and> (wf_shell s \<longrightarrow> quiet s (snd (run_builtin w s cmd full)))"
proof (cases "argv cmd")
  case Nil
  then show ?thesis by (simp add: run_builtin_def)
next
  case (Cons a0 args)
  have ql: "\<And>s e. \<not> is_launch e \<Longrightarrow> quiet s (emit s [e])"
    by (simp add: quiet_emit)
  note [simp] = is_launch_def
  consider (cd) "a0 = ''cd''" | (pwd) "a0 = ''pwd''" | (exit) "a0 = ''exit''" | (jobs) "a0 = ''jobs''"
    | (history) "a0 = ''history''" | (fg) "a0 = ''fg''" | (bg) "a0 = ''bg''" | (kill) "a0 = ''kill''"
    | (other) "a0 \<notin> {''cd'', ''pwd'', ''exit'', ''jobs'', ''history'', ''fg'', ''bg'', ''kill''}"
    by auto
  then show ?thesis
  proof cases
    case cd
    then show ?thesis using Cons by (simp add: run_builtin_def builtin_cd_def Let_def ql)
  next
    case pwd
    then show ?thesis using Cons
      by (simp add: run_builtin_def print_pwd_def ql split: option.splits)
  next
    case exit
    then show ?thesis using Cons by (simp add: run_builtin_def save_history_def ql)
  next
    case jobs
    have "keeps s (print_jobs (remove_done_jobs s))"
      by (rule keeps_trans [OF keeps_remove_done_jobs keeps_print_jobs])
    moreover have "wf_shell s \<Longrightarrow> quiet s (print_jobs (remove_done_jobs s))"
      by (rule quiet_trans [OF quiet_remove_done_jobs quiet_print_jobs]) (rule wf_remove_done_jobs)
    ultimately show ?thesis using Cons jobs by (simp add: run_builtin_def)
  next
    case history
    have "quiet s (print_history s)"
      by (simp add: print_history_def quiet_emit list_all_iff)
    moreover have "keeps s (print_history s)" by (simp add: print_history_def)
    ultimately show ?thesis using Cons history by (simp add: run_builtin_def)
  next
    case fg
    show ?thesis
    proof (cases args)
      case Nil
      then show ?thesis using Cons fg by (simp add: run_builtin_def ql)
    next
      case (Cons a1 rest)
      define idx where "idx = find_job_index_by_id s (atoi a1)"
      show ?thesis
      proof (cases "idx < 0")
        case True
        then show ?thesis using Cons \<open>argv cmd = a0 # args\<close> fg
          by (simp add: run_builtin_def ql idx_def)
      next
        case False
        define pg where "pg = pgid (jobs s ! nat idx)"
        define s1 where "s1 = emit s [Tcsetpgrp pg, Kill (- pg) SIGCONT]"
        define s2 where "s2 = fg_wait (wait_res w) s1 (nat idx)"
        define s3 where "s3 = emit s2 [Tcsetpgrp (getpgrp_res w)]"
        define s4 where "s4 = (if group_gone w then set_state s3 (nat idx) JOB_DONE else s3)"
        have r: "snd (run_builtin w s cmd full) = s4"
          using Cons \<open>argv cmd = a0 # args\<close> fg False
          by (simp add: run_builtin_def Let_def idx_def s4_def s3_def s2_def s1_def pg_def)
        have "keeps s s1" "quiet s s1" by (simp_all add: s1_def quiet_emit)
        moreover have "keeps s1 s2" "quiet s1 s2" using fg_wait_keeps_quiet by (simp_all add: s2_def)
        moreover have "keeps s2 s3" "quiet s2 s3" by (simp_all add: s3_def quiet_emit)
        moreover have "keeps s3 s4" "quiet s3 s4" by (simp_all add: s4_def)
        ultimately have "keeps s s4" "quiet s s4"
          by (blast intro: keeps_trans quiet_trans)+
        then show ?thesis by (simp add: r)
      qed
    qed
  next
    case bg
    show ?thesis
    proof (cases args)
      case Nil
      then show ?thesis using Cons bg by (simp add: run_builtin_def ql)
    next
      case (Cons a1 rest)
      define idx where "idx = find_job_index_by_id s (atoi a1)"
      show ?thesis
      proof (cases "idx < 0")
        case True
        then show ?thesis using Cons \<open>argv cmd = a0 # args\<close> bg
          by (simp add: run_builtin_def ql idx_def)
      next
        case False
        define s1 where "s1 = emit s [Kill (- pgid (jobs s ! nat idx)) SIGCONT]"
        have r: "snd (run_builtin w s cmd full) = set_state s1 (nat idx) JOB_RUNNING"
          using Cons \<open>argv cmd = a0 # args\<close> bg False
          by (simp add: run_builtin_def Let_def idx_def s1_def)
        have "keeps s s1" "quiet s s1" by (simp_all add: s1_def quiet_emit)
        then have "keeps s (set_state s1 (nat idx) JOB_RUNNING)" "quiet s (set_state s1 (nat idx) JOB_RUNNING)"
          by (blast intro: keeps_trans quiet_trans keeps_set_state quiet_set_state)+
        then show ?thesis by (simp add: r)
      qed
    qed
  next
    case kill
    show ?thesis
    proof (cases args)
      case Nil
      then show ?thesis using Cons kill by (simp add: run_builtin_def ql)
    next
      case (Cons a1 rest)
      define idx where "idx = find_job_index_by_id s (atoi a1)"
      show ?thesis
      proof (cases "idx < 0")
        case True
        then show ?thesis using Cons \<open>argv cmd = a0 # args\<close> kill
          by (simp add: run_builtin_def ql idx_def)
      next
        case False
        define s1 where "s1 = emit s [Kill (- pgid (jobs s ! nat idx)) SIGTERM]"
        define s2 where "s2 = (if kill_ok w then s1 else emit s1 [Perror ''kill''])"
        have r: "snd (run_builtin w s cmd full) = set_state s2 (nat idx) JOB_DONE"
          using Cons \<open>argv cmd = a0 # args\<close> kill False
          by (simp add: run_builtin_def Let_def idx_def s1_def s2_def)
        have "keeps s s1" "quiet s s1" by (simp_all add: s1_def quiet_emit)
        moreover have "keeps s1 s2" "quiet s1 s2" by (simp_all add: s2_def quiet_emit)
        ultimately have "keeps s (set_state s2 (nat idx) JOB_DONE)" "quiet s (set_state s2 (nat idx) JOB_DONE)"
          by (blast intro: keeps_trans quiet_trans keeps_set_state quiet_set_state)+
        then show ?thesis by (simp add: r)
      qed
    qed
  next
    case other
    then show ?thesis using Cons by (simp add: run_builtin_def)
  qed
qed

lemma keeps_evolves: "keeps s s' \<Longrightarrow> evolves s s'"
  by (auto simp: keeps_def evolves_def)

lemma evolves_emit_right: "evolves s s1 \<Longrightarrow> evolves s (emit s1 es)"
  by (simp add: evolves_def)

lemma evolves_emit_left: "s1 = emit s es \<Longrightarrow> evolves s1 s2 \<Longrightarrow> evolves s s2"
  by (simp add: evolves_def)

lemma evolves_add_job_entry: "evolves s (add_job_entry s pg cmd st)"
proof (cases "MAX_JOBS \<le> job_count s")
  case True
  then show ?thesis by (simp add: add_job_entry_def evolves_def)
next
  case False
  let ?j = "\<lparr>id_job = next_job_id s, pgid = pg, cmdline = take (MAX_INPUT - 1) cmd, state = st\<rparr>"
  have "wf_shell s \<Longrightarrow> table (add_job_entry s pg cmd st) = table s @ [?j]"
    using False
    by (simp add: add_job_entry_def table_def wf_shell_def take_Suc_conv_app_nth)
  then have "wf_shell s \<Longrightarrow>
      keys (add_job_entry s pg cmd st) = keys s @ [(next_job_id s, pg, take (MAX_INPUT - 1) cmd)]"
    by (simp add: keys_def job_key_def)
  moreover have "wf_shell s \<Longrightarrow> wf_shell (add_job_entry s pg cmd st)"
    using False by (simp add: add_job_entry_def wf_shell_def)
  moreover have "next_job_id (add_job_entry s pg cmd st) = int_wrap (next_job_id s + 1)"
    using False by (simp add: add_job_entry_def)
  ultimately show ?thesis by (auto simp: evolves_def)
qed

lemma launch_wait_evolves: "evolves s (launch_wait ws s pg full)"
proof (induction ws arbitrary: s)
  case Nil
  then show ?case by (simp add: keeps_evolves)
next
  case (Cons a ws)
  obtain pid status where a: "a = (pid, status)" by (cases a)
  let ?s1 = "emit s [Waitpid pid status]"
  show ?case
  proof (cases "WIFSTOPPED status")
    case False
    then have "launch_wait (a # ws) s pg full = launch_wait ws ?s1 pg full"
      by (simp add: a)
    then show ?thesis using evolves_emit_left [OF refl Cons.IH [of ?s1]] by simp
  next
    case True
    define idx where "idx = find_job_index_by_pgid ?s1 pg"
    define s2 where "s2 = (if idx < 0 then add_job_entry ?s1 pg full JOB_STOPPED
                      else set_state ?s1 (nat idx) JOB_STOPPED)"
    have r: "launch_wait (a # ws) s pg full =
        emit s2 [Stdout (newline @ ''[stopped] '' @ full @ newline)]"
      using True by (simp add: a Let_def s2_def idx_def)
    have "evolves ?s1 s2"
      by (simp add: s2_def evolves_add_job_entry keeps_evolves)
    then have "evolves ?s1 (emit s2 [Stdout (newline @ ''[stopped] '' @ full @ newline)])"
      by (rule evolves_emit_right)
    then show ?thesis
      unfolding r by (rule evolves_emit_left [OF refl])
  qed
qed

lemma make_pipes_emits: "\<exists>es. snd (make_pipes w s nseg k) = emit s es"
proof (induction w s nseg k rule: make_pipes.induct)
  case (1 w s nseg k)
  show ?case
  proof (cases "k < nseg - 1")
    case False
    then have "snd (make_pipes w s nseg k) = emit s []"
      by (subst make_pipes.simps) simp
    then show ?thesis by blast
  next
    case True
    show ?thesis
    proof (cases "pipe_ok w k")
      case False
      then have "snd (make_pipes w s nseg k) = emit s [Perror ''pipe'']"
        using True by (subst make_pipes.simps) simp
      then show ?thesis by blast
    next
      case ok: True
      obtain es where "snd (make_pipes w (emit s [Pipe k]) nseg (k + 1)) = emit (emit s [Pipe k]) es"
        using "1.IH" [OF True ok] by blast
      moreover have "make_pipes w s nseg k = make_pipes w (emit s [Pipe k]) nseg (k + 1)"
        using True ok by (subst make_pipes.simps) simp
      ultimately have "snd (make_pipes w s nseg k) = emit s ([Pipe k] @ es)" by simp
      then show ?thesis by blast
    qed
  qed
qed

lemma fork_stages_emits: "\<exists>es. snd (fork_stages w s segments background k pg) = emit s es"
proof (induction "length segments - k" arbitrary: k s pg)
  case 0
  then have "snd (fork_stages w s segments background k pg) = emit s []"
    by (simp add: fork_stages_stop)
  then show ?case by blast
next
  case (Suc n)
  then have lt: "k < length segments" by simp
  show ?case
  proof (cases "fork_res w k = - 1")
    case True
    then show ?thesis using lt by (auto simp: fork_stages_fail)
  next
    case False
    define pg' where "pg' = (if pg = 0 then fork_res w k else pg)"
    let ?s1 = "emit s (stage_effects w segments background pg' k)"
    have step: "fork_stages w s segments background k pg =
        fork_stages w ?s1 segments background (k + 1) pg'"
      using lt False pg'_def by (rule fork_stages_step)
    have "n = length segments - (k + 1)" using Suc.hyps(2) by simp
    then obtain es where "snd (fork_stages w ?s1 segments background (k + 1) pg') = emit ?s1 es"
      using Suc.hyps(1) [of "k + 1" ?s1 pg'] by blast
    then have "snd (fork_stages w s segments background k pg) =
        emit s (stage_effects w segments background pg' k @ es)"
      by (simp add: step)
    then show ?thesis by blast
  qed
qed

lemma execute_line_builtin:
  assumes "segments = split_pipeline line MAX_CMDS" and "length segments = 1"
    and "is_builtin (parse_command (take (MAX_INPUT - 1) (segments ! 0)))"
  shows "execute_line w s line background full =
     (case run_builtin w s (parse_command (take (MAX_INPUT - 1) (segments ! 0))) full of
        (Return r, s') \<Rightarrow> (Return (), s')
      | (Exit n, s') \<Rightarrow> (Exit n, s'))"
proof -
  have c1: "(length segments \<le> 0) = False" using assms(2) by simp
  have c2: "(length segments = 1 \<and>
      is_builtin (parse_command (take (MAX_INPUT - 1) (segments ! 0)))) = True"
    using assms(2,3) by simp
  show ?thesis
    unfolding execute_line_def assms(1) [symmetric] Let_def c1 c2 by simp
qed

lemma snd_result_case:
  "snd (case x of (Return r, s') \<Rightarrow> (Return (), s') | (Exit n, s') \<Rightarrow> (Exit n, s')) = snd x"
  by (cases x; cases "fst x") auto

lemma execute_line_evolves: "evolves s (snd (execute_line w s line background full))"
proof -
  define segments where "segments = split_pipeline line MAX_CMDS"
  define first where "first = parse_command (take (MAX_INPUT - 1) (segments ! 0))"
  show ?thesis
  proof (cases "length segments \<le> 0")
    case True
    then show ?thesis
      by (simp add: execute_line_def segments_def [symmetric] keeps_evolves)
  next
    case ne: False
    show ?thesis
    proof (cases "length segments = 1 \<and> is_builtin first")
      case True
      then have "snd (execute_line w s line background full) = snd (run_builtin w s first full)"
        using execute_line_builtin [OF segments_def, of w s background full]
        by (simp add: first_def snd_result_case)
      then show ?thesis
        using run_builtin_keeps_quiet [of s w first full] by (simp add: keeps_evolves)
    next
      case nb: False
      obtain b s1 where mp: "make_pipes w s (length segments) 0 = (b, s1)"
        by (cases "make_pipes w s (length segments) 0")
      obtain es1 where s1: "s1 = emit s es1"
        using make_pipes_emits [of w s "length segments" 0] mp by auto
      obtain r s2 where fs: "fork_stages w s1 segments background 0 0 = (r, s2)"
        by (cases "fork_stages w s1 segments background 0 0")
      obtain es2 where s2: "s2 = emit s1 es2"
        using fork_stages_emits [of w s1 segments background 0 0] fs by auto
      have unfold: "execute_line w s line background full =
          (case make_pipes w s (length segments) 0 of
              (False, s1) \<Rightarrow> (Return (), s1)
            | (True, s1) \<Rightarrow>
                (case fork_stages w s1 segments background 0 0 of
                   (None, s2) \<Rightarrow> (Return (), s2)
                 | (Some pg, s2) \<Rightarrow>
                     (let s3 = close_pipes s2 (length segments) in
                      if background then
                        (let s4 = add_job_entry s3 pg full JOB_RUNNING;
                             s5 = emit s4
                                    [Stdout (''[%'' @ show_int (id_job (jobs s4 ! (job_count s4 - 1)))
                                             @ ''] started in background, PGID='' @ show_int pg
                                             @ newline),
                                     Tcsetpgrp (getpgrp_res w)]
                         in (Return (), s5))
                      else
                        (let s4 = emit s3 [Tcsetpgrp pg];
                             s5 = launch_wait (wait_res w) s4 pg full
                         in (Return (), emit s5 [Tcsetpgrp (getpgrp_res w)])))))"
        using ne nb
        unfolding execute_line_def segments_def [symmetric] first_def [symmetric] Let_def
        by (simp only: if_False)
      have s2e: "s2 = emit s (es1 @ es2)" by (simp add: s2 s1)
      show ?thesis
      proof (cases b)
        case False
        have "evolves s s1" by (simp add: s1 keeps_evolves)
        then show ?thesis using False by (simp add: unfold mp)
      next
        case True
        show ?thesis
        proof (cases r)
          case None
          have "evolves s s2" by (simp add: s2e keeps_evolves)
          then show ?thesis using True None by (simp add: unfold mp fs)
        next
          case (Some pg)
          define s3 where "s3 = close_pipes s2 (length segments)"
          have s3e: "s3 = emit s (es1 @ es2 @ concat (map (\<lambda>i. [Close i 0, Close i 1]) [0..<length segments - 1]))"
            by (simp add: s3_def close_pipes_def s2e)
          show ?thesis
          proof (cases background)
            case bg: True
            define s4 where "s4 = add_job_entry s3 pg full JOB_RUNNING"
            have "evolves s3 s4"
              unfolding s4_def by (rule evolves_add_job_entry)
            then have "evolves s3 (emit s4
                  [Stdout (''[%'' @ show_int (id_job (jobs s4 ! (job_count s4 - 1)))
                           @ ''] started in background, PGID='' @ show_int pg @ newline),
                   Tcsetpgrp (getpgrp_res w)])"
              by (rule evolves_emit_right)
            then have "evolves s (emit s4
                  [Stdout (''[%'' @ show_int (id_job (jobs s4 ! (job_count s4 - 1)))
                           @ ''] started in background, PGID='' @ show_int pg @ newline),
                   Tcsetpgrp (getpgrp_res w)])"
              by (rule evolves_emit_left [OF s3e])
            moreover have "snd (execute_line w s line background full) = emit s4
                  [Stdout (''[%'' @ show_int (id_job (jobs s4 ! (job_count s4 - 1)))
                           @ ''] started in background, PGID='' @ show_int pg @ newline),
                   Tcsetpgrp (getpgrp_res w)]"
              unfolding unfold mp using True Some
              by (simp add: fs if_P [OF bg] s3_def [symmetric] s4_def [symmetric] Let_def)
            ultimately show ?thesis by simp
          next
            case fg: False
            define s4 where "s4 = emit s3 [Tcsetpgrp pg]"
            have s4e: "s4 = emit s ((es1 @ es2 @ concat (map (\<lambda>i. [Close i 0, Close i 1]) [0..<length segments - 1])) @ [Tcsetpgrp pg])"
              by (simp add: s4_def s3e)
            have "evolves s4 (launch_wait (wait_res w) s4 pg full)"
              by (rule launch_wait_evolves)
            then have "evolves s4 (emit (launch_wait (wait_res w) s4 pg full)
                [Tcsetpgrp (getpgrp_res w)])"
              by (rule evolves_emit_right)
            then have "evolves s (emit (launch_wait (wait_res w) s4 pg full)
                [Tcsetpgrp (getpgrp_res w)])"
              by (rule evolves_emit_left [OF s4e])
            moreover have "snd (execute_line w s line background full) =
                emit (launch_wait (wait_res w) s4 pg full) [Tcsetpgrp (getpgrp_res w)]"
              unfolding unfold mp using True Some
              by (simp add: fs if_not_P [OF fg] s3_def [symmetric] s4_def [symmetric] Let_def)
            ultimately show ?thesis by simp
          qed
        qed
      qed
    qed
  qed
qed

lemma sigchld_handler_keeps: "keeps s (sigchld_handler s evs)"
proof (induction evs arbitrary: s)
  case Nil
  then show ?case by simp
next
  case (Cons ev evs)
  obtain pid pg status where ev: "ev = (pid, pg, status)" by (cases ev)
  define s1 where "s1 = emit s [Waitpid pid status]"
  define idx where "idx = find_job_index_by_pgid s1 pg"
  define s2 where "s2 = (if idx \<ge> 0 then
              (if WIFSTOPPED status then set_state s1 (nat idx) JOB_STOPPED
               else if WIFCONTINUED status then set_state s1 (nat idx) JOB_RUNNING
               else if WIFEXITED status \<or> WIFSIGNALED status
                 then set_state s1 (nat idx) JOB_DONE
               else s1)
            else s1)"
  have step: "sigchld_handler s (ev # evs) = sigchld_handler s2 evs"
    by (simp add: ev s2_def idx_def s1_def Let_def)
  have "keeps s s1" by (simp add: s1_def)
  moreover have "keeps s1 s2" by (simp add: s2_def)
  ultimately show ?case
    unfolding step using Cons.IH [of s2] by (blast intro: keeps_trans)
qed

lemma do_step_evolves: "evolves s (snd (do_step s st))"
  by (cases st)
     (simp_all add: do_step_def execute_line_evolves sigchld_handler_keeps keeps_evolves)

section \<open>Job ids over a session\<close>

lemma subseq_set: "subseq xs ys \<Longrightarrow> set xs \<subseteq> set ys"
  by (induction rule: list_emb.induct) auto

lemma sorted_wrt_subseq:
  "subseq xs ys \<Longrightarrow> sorted_wrt R ys \<Longrightarrow> sorted_wrt R xs"
proof (induction rule: list_emb.induct)
  case (list_emb_Nil ys)
  then show ?case by simp
next
  case (list_emb_Cons xs ys y)
  then show ?case by simp
next
  case (list_emb_Cons2 x y xs ys)
  then have "set xs \<subseteq> set ys" by (simp add: subseq_set)
  then show ?case using list_emb_Cons2 by auto
qed

lemma int_wrap_id: "0 < n \<Longrightarrow> n < INT_MAX \<Longrightarrow> int_wrap (n + 1) = n + 1"
proof -
  assume a: "0 < n" "n < INT_MAX"
  have "(n + 1 + 2147483648) mod 4294967296 = n + 1 + 2147483648"
    using a by (intro mod_pos_pos_trivial) (simp_all add: INT_MAX_def)
  then show ?thesis by (simp add: int_wrap_def)
qed

lemma evolves_inv:
  assumes "evolves s s'" and "inv_ids s" and "next_job_id s < INT_MAX"
  shows "inv_ids s' \<and> next_job_id s \<le> next_job_id s' \<and> next_job_id s' \<le> next_job_id s + 1
       \<and> (\<forall>k \<in> set (keys s'). fst k < next_job_id s \<longrightarrow> k \<in> set (keys s))"
proof -
  have wf: "wf_shell s" and pos: "0 < next_job_id s"
    and ids: "\<forall>k \<in> set (keys s). 0 < fst k \<and> fst k < next_job_id s"
    and srt: "sorted_wrt (<) (map fst (keys s))"
    using assms(2) by (simp_all add: inv_ids_def)
  have wf': "wf_shell s'" using assms(1) wf by (simp add: evolves_def)
  consider (keep) "next_job_id s' = next_job_id s" "subseq (keys s') (keys s)"
    | (add) p c where "next_job_id s' = int_wrap (next_job_id s + 1)"
        "keys s' = keys s @ [(next_job_id s, p, c)]"
    using assms(1) wf by (auto simp: evolves_def)
  then show ?thesis
  proof cases
    case keep
    have sub: "set (keys s') \<subseteq> set (keys s)"
      using keep(2) by (rule subseq_set)
    have "sorted_wrt (<) (map fst (keys s'))"
      using subseq_map [OF keep(2), of fst] srt by (rule sorted_wrt_subseq)
    then show ?thesis
      using wf' pos ids sub keep(1) by (auto simp: inv_ids_def)
  next
    case add
    have n: "next_job_id s' = next_job_id s + 1"
      using add(1) int_wrap_id [OF pos assms(3)] by simp
    have "sorted_wrt (<) (map fst (keys s'))"
      using srt ids by (auto simp: add(2) sorted_wrt_append)
    then show ?thesis
      using wf' pos ids n by (auto simp: inv_ids_def add(2))
  qed
qed

lemma session_nonempty [simp]: "session s steps \<noteq> []"
  by (cases steps) simp_all

lemma session_hd [simp]: "session s steps ! 0 = s"
  by (cases steps) simp_all

lemma session_inv:
  assumes "inv_ids s" and "next_job_id s + int (length steps) \<le> INT_MAX"
    and "i \<le> j" and "j < length (session s steps)"
  shows "inv_ids (session s steps ! j)
       \<and> next_job_id (session s steps ! i) \<le> next_job_id (session s steps ! j)
       \<and> next_job_id (session s steps ! j) \<le> next_job_id s + int j
       \<and> (\<forall>k \<in> set (keys (session s steps ! j)).
             fst k < next_job_id (session s steps ! i) \<longrightarrow> k \<in> set (keys (session s steps ! i)))"
  using assms
proof (induction steps arbitrary: s i j)
  case Nil
  then show ?case by simp
next
  case (Cons st rest)
  obtain r s' where d: "do_step s st = (r, s')" by (cases "do_step s st")
  define tl where "tl = (case r of Return u \<Rightarrow> session s' rest | Exit n \<Rightarrow> [s'])"
  have ss: "session s (st # rest) = s # tl"
    by (simp add: d tl_def split: result.splits)
  have ev: "evolves s s'" using do_step_evolves [of s st] d by simp
  have lt: "next_job_id s < INT_MAX" using Cons.prems(2) by simp
  note E = evolves_inv [OF ev Cons.prems(1) lt]
  have inv': "inv_ids s'" using E by simp
  have bound': "next_job_id s' + int (length rest) \<le> INT_MAX"
    using E Cons.prems(2) by simp
  have tl0: "tl ! 0 = s'" by (simp add: tl_def split: result.splits)
  have tl_inv: "\<And>a b. a \<le> b \<Longrightarrow> b < length tl \<Longrightarrow>
      inv_ids (tl ! b) \<and> next_job_id (tl ! a) \<le> next_job_id (tl ! b)
       \<and> next_job_id (tl ! b) \<le> next_job_id s' + int b
       \<and> (\<forall>k \<in> set (keys (tl ! b)). fst k < next_job_id (tl ! a) \<longrightarrow> k \<in> set (keys (tl ! a)))"
  proof -
    fix a b assume ab: "a \<le> b" "b < length tl"
    show "inv_ids (tl ! b) \<and> next_job_id (tl ! a) \<le> next_job_id (tl ! b)
       \<and> next_job_id (tl ! b) \<le> next_job_id s' + int b
       \<and> (\<forall>k \<in> set (keys (tl ! b)). fst k < next_job_id (tl ! a) \<longrightarrow> k \<in> set (keys (tl ! a)))"
    proof (cases r)
      case (Return u)
      then have "tl = session s' rest" by (simp add: tl_def)
      then show ?thesis using Cons.IH [OF inv' bound' ab(1)] ab(2) by simp
    next
      case (Exit n)
      then have "tl = [s']" by (simp add: tl_def)
      then show ?thesis using ab inv' by simp
    qed
  qed
  show ?case
  proof (cases j)
    case 0
    then show ?thesis using Cons.prems unfolding ss by simp
  next
    case (Suc b)
    then have b: "b < length tl" using Cons.prems(4) unfolding ss by simp
    note B0 = tl_inv [of 0 b, OF _ b, simplified tl0]
    show ?thesis
    proof (cases i)
      case 0
      have "\<forall>k \<in> set (keys (tl ! b)). fst k < next_job_id s \<longrightarrow> k \<in> set (keys s)"
      proof (intro ballI impI)
        fix k assume k: "k \<in> set (keys (tl ! b))" "fst k < next_job_id s"
        then have "fst k < next_job_id s'" using E by simp
        then have "k \<in> set (keys s')" using B0 k(1) by simp
        then show "k \<in> set (keys s)" using E k(2) by simp
      qed
      then show ?thesis using B0 E 0 Suc unfolding ss by simp
    next
      case (Suc a)
      then have "a \<le> b" using Cons.prems(3) \<open>j = Suc b\<close> by simp
      note AB = tl_inv [OF this b]
      show ?thesis using AB E Suc \<open>j = Suc b\<close> unfolding ss by simp
    qed
  qed
qed

lemma inv_ids_init: "inv_ids init_shell"
  by (simp add: inv_ids_def wf_shell_def init_shell_def keys_def table_def)


text \<open>
  C7. Take any session of fewer than \<^verbatim>\<open>INT_MAX\<close> steps (beyond that, \<^verbatim>\<open>next_job_id++\<close>
  overflows) and three of its states, the \<^verbatim>\<open>h\<close>-th not after the \<^verbatim>\<open>i\<close>-th not after the
  \<^verbatim>\<open>j\<close>-th. In every state the ids in the table are positive, below the id counter and
  pairwise different, and the counter is at most one more than the number of steps taken;
  the counter never decreases. A job in the later table whose id is below the earlier
  counter is the job that had this id at the earlier state (same id, process group and
  command text): no id is given to another job. And a job of the later table that is
  not in the table at state \<^verbatim>\<open>i\<close> has an id greater than the id of every job in any table
  up to then.
\<close>

theorem job_ids_increase_and_are_not_reused:
  assumes "int (length steps) < INT_MAX" and "h \<le> i" and "i \<le> j"
    and "j < length (session init_shell steps)"
  shows "(\<forall>x \<in> set (table (session init_shell steps ! j)).
            0 < id_job x \<and> id_job x < next_job_id (session init_shell steps ! j))
       \<and> distinct (map id_job (table (session init_shell steps ! j)))
       \<and> next_job_id (session init_shell steps ! j) \<le> 1 + int j
       \<and> next_job_id (session init_shell steps ! i) \<le> next_job_id (session init_shell steps ! j)
       \<and> (\<forall>x \<in> set (table (session init_shell steps ! j)).
            id_job x < next_job_id (session init_shell steps ! i) \<longrightarrow>
            (\<exists>y \<in> set (table (session init_shell steps ! i)). job_key y = job_key x))
       \<and> (\<forall>x \<in> set (table (session init_shell steps ! j)).
            (\<forall>y \<in> set (table (session init_shell steps ! i)). job_key y \<noteq> job_key x) \<longrightarrow>
            (\<forall>y \<in> set (table (session init_shell steps ! h)). id_job y < id_job x))"
proof -
  let ?ss = "session init_shell steps"
  have bound: "next_job_id init_shell + int (length steps) \<le> INT_MAX"
    using assms(1) by (simp add: init_shell_def)
  have n1: "next_job_id init_shell = 1" by (simp add: init_shell_def)
  note J = session_inv [OF inv_ids_init bound assms(3,4)]
  have i: "i < length ?ss" using assms(3,4) by simp
  note H = session_inv [OF inv_ids_init bound assms(2) i]
  have fst_key: "\<And>s. map fst (keys s) = map id_job (table s)"
    by (simp add: keys_def job_key_def)
  have key_id: "\<And>x. fst (job_key x) = id_job x" by (simp add: job_key_def)
  have invj: "inv_ids (?ss ! j)" using J by simp
  have 1: "\<forall>x \<in> set (table (?ss ! j)). 0 < id_job x \<and> id_job x < next_job_id (?ss ! j)"
    using invj by (simp add: inv_ids_def keys_def key_id)
  have 2: "distinct (map id_job (table (?ss ! j)))"
    using invj by (simp add: inv_ids_def fst_key strict_sorted_iff)
  have 3: "next_job_id (?ss ! j) \<le> 1 + int j" using J n1 by simp
  have 4: "next_job_id (?ss ! i) \<le> next_job_id (?ss ! j)" using J by simp
  have 5: "\<forall>x \<in> set (table (?ss ! j)). id_job x < next_job_id (?ss ! i) \<longrightarrow>
            (\<exists>y \<in> set (table (?ss ! i)). job_key y = job_key x)"
  proof (intro ballI impI)
    fix x assume x: "x \<in> set (table (?ss ! j))" "id_job x < next_job_id (?ss ! i)"
    then have "job_key x \<in> set (keys (?ss ! j))" by (simp add: keys_def)
    then have "job_key x \<in> set (keys (?ss ! i))"
      using J x(2) by (simp add: key_id)
    then show "\<exists>y \<in> set (table (?ss ! i)). job_key y = job_key x"
      by (auto simp: keys_def)
  qed
  have 6: "\<forall>x \<in> set (table (?ss ! j)).
            (\<forall>y \<in> set (table (?ss ! i)). job_key y \<noteq> job_key x) \<longrightarrow>
            (\<forall>y \<in> set (table (?ss ! h)). id_job y < id_job x)"
  proof (intro ballI impI)
    fix x y
    assume x: "x \<in> set (table (?ss ! j))" "\<forall>y \<in> set (table (?ss ! i)). job_key y \<noteq> job_key x"
      and y: "y \<in> set (table (?ss ! h))"
    have "\<not> id_job x < next_job_id (?ss ! i)" using 5 x by blast
    moreover have "next_job_id (?ss ! h) \<le> next_job_id (?ss ! i)" using H by simp
    moreover have "h < length ?ss" using assms(2) i by simp
    then have "inv_ids (?ss ! h)"
      using session_inv [OF inv_ids_init bound le_refl, of h] by simp
    then have "id_job y < next_job_id (?ss ! h)"
      using y by (simp add: inv_ids_def keys_def key_id)
    ultimately show "id_job y < id_job x" by simp
  qed
  show ?thesis using 1 2 3 4 5 6 by blast
qed



lemma session_sample_keys:
  "map (\<lambda>s. (keys s, next_job_id s)) (session init_shell sample_steps) =
     [([], 1), ([(1, 101, ''sleep 5 &'')], 2), ([(1, 101, ''sleep 5 &'')], 2), ([], 2),
      ([(2, 101, ''sleep 6 &'')], 3)]"
  by code_simp

theorem job_ids_increase_and_are_not_reused_witness:
  "int (length sample_steps) < INT_MAX \<and> (1::nat) \<le> 2 \<and> (2::nat) \<le> 4
   \<and> 4 < length (session init_shell sample_steps)
   \<and> keys (session init_shell sample_steps ! 1) = [(1, 101, ''sleep 5 &'')]
   \<and> keys (session init_shell sample_steps ! 2) = [(1, 101, ''sleep 5 &'')]
   \<and> keys (session init_shell sample_steps ! 4) = [(2, 101, ''sleep 6 &'')]
   \<and> next_job_id (session init_shell sample_steps ! 1) = 2
   \<and> next_job_id (session init_shell sample_steps ! 4) = 3
   \<and> distinct (map id_job (table (session init_shell sample_steps ! 4)))
   \<and> next_job_id (session init_shell sample_steps ! 2) \<le> next_job_id (session init_shell sample_steps ! 4)
   \<and> job_key (hd (table (session init_shell sample_steps ! 2)))
        \<in> set (keys (session init_shell sample_steps ! 1))
   \<and> list_all (\<lambda>y. id_job y < id_job (hd (table (session init_shell sample_steps ! 4))))
        (table (session init_shell sample_steps ! 1))"
proof -
  let ?ss = "session init_shell sample_steps"
  have len: "length ?ss = 5"
    using arg_cong [OF session_sample_keys, of length] by simp
  have a: "int (length sample_steps) < INT_MAX" by (simp add: sample_steps_def INT_MAX_def)
  have b: "4 < length ?ss" by (simp add: len)
  have b2: "2 < length ?ss" by (simp add: len)
  have nth: "(keys (?ss ! k), next_job_id (?ss ! k)) =
      [([], 1), ([(1, 101, ''sleep 5 &'')], 2), ([(1, 101, ''sleep 5 &'')], 2), ([], 2),
       ([(2::int, 101::int, ''sleep 6 &'')], 3::int)] ! k" if "k < 5" for k
  proof -
    have "map (\<lambda>s. (keys s, next_job_id s)) ?ss ! k = (keys (?ss ! k), next_job_id (?ss ! k))"
      using that len by (intro nth_map) simp
    then show ?thesis by (simp only: session_sample_keys)
  qed
  have v1: "keys (?ss ! 1) = [(1, 101, ''sleep 5 &'')]" "next_job_id (?ss ! 1) = 2"
    using nth [of 1] by simp_all
  have v2: "keys (?ss ! 2) = [(1, 101, ''sleep 5 &'')]" using nth [of 2] by simp
  have v4: "keys (?ss ! 4) = [(2, 101, ''sleep 6 &'')]" "next_job_id (?ss ! 4) = 3"
    using nth [of 4] by simp_all
  have one: "\<And>s k. keys s = [k] \<Longrightarrow> table s = [hd (table s)] \<and> job_key (hd (table s)) = k"
    by (auto simp: keys_def)
  have id: "\<And>x. id_job x = fst (job_key x)" by (simp add: job_key_def)
  have le: "(1::nat) \<le> 2" "(2::nat) \<le> 4" "(0::nat) \<le> 1" by simp_all
  note T = job_ids_increase_and_are_not_reused [OF a le(1) le(2) b]
  have d: "distinct (map id_job (table (?ss ! 4)))" using T by simp
  have m: "next_job_id (?ss ! 2) \<le> next_job_id (?ss ! 4)" using T by simp
  have x4: "hd (table (?ss ! 4)) \<in> set (table (?ss ! 4))"
      "job_key (hd (table (?ss ! 4))) = (2, 101, ''sleep 6 &'')"
    using one [OF v4(1)] by (metis list.set_intros(1), simp)
  have new: "\<forall>y \<in> set (table (?ss ! 2)). job_key y \<noteq> job_key (hd (table (?ss ! 4)))"
  proof
    fix y assume "y \<in> set (table (?ss ! 2))"
    then have "job_key y \<in> set (keys (?ss ! 2))" by (simp add: keys_def)
    then show "job_key y \<noteq> job_key (hd (table (?ss ! 4)))" by (simp add: v2 x4(2))
  qed
  have "\<forall>y \<in> set (table (?ss ! 1)). id_job y < id_job (hd (table (?ss ! 4)))"
    using T x4(1) new by blast
  then have g: "list_all (\<lambda>y. id_job y < id_job (hd (table (?ss ! 4)))) (table (?ss ! 1))"
    by (simp add: list_all_iff)
  note U = job_ids_increase_and_are_not_reused [OF a le(3) le(1) b2]
  have x2: "hd (table (?ss ! 2)) \<in> set (table (?ss ! 2))"
      "job_key (hd (table (?ss ! 2))) = (1, 101, ''sleep 5 &'')"
    using one [OF v2] by (metis list.set_intros(1), simp)
  have "id_job (hd (table (?ss ! 2))) < next_job_id (?ss ! 1)"
    unfolding id x2(2) v1(2) by simp
  then have "\<exists>y \<in> set (table (?ss ! 1)). job_key y = job_key (hd (table (?ss ! 2)))"
    using U x2(1) by simp
  then obtain y where "y \<in> set (table (?ss ! 1))" "job_key y = job_key (hd (table (?ss ! 2)))"
    by blast
  then have "job_key (hd (table (?ss ! 2))) \<in> job_key ` set (table (?ss ! 1))"
    by (metis imageI)
  then have k: "job_key (hd (table (?ss ! 2))) \<in> set (keys (?ss ! 1))"
    unfolding keys_def set_map .
  show ?thesis using a b v1 v2 v4 d m k g by simp
qed

section \<open>Builtins and pipelines\<close>

lemma trace_add_job_entry [simp]: "trace (add_job_entry s pg cmd st) = trace s"
  by (simp add: add_job_entry_def)

lemma launch_wait_trace: "\<exists>es. trace (launch_wait ws s pg full) = trace s @ es"
proof (induction ws arbitrary: s)
  case Nil
  then show ?case by simp
next
  case (Cons a ws)
  obtain pid status where a: "a = (pid, status)" by (cases a)
  show ?case
  proof (cases "WIFSTOPPED status")
    case True
    then show ?thesis by (simp add: a Let_def)
  next
    case False
    obtain es where "trace (launch_wait ws (emit s [Waitpid pid status]) pg full) =
        trace (emit s [Waitpid pid status]) @ es"
      using Cons.IH by blast
    then have "trace (launch_wait (a # ws) s pg full) = trace s @ (Waitpid pid status # es)"
      using False by (simp add: a)
    then show ?thesis by blast
  qed
qed

lemma launch_trace:
  assumes "segments = split_pipeline line MAX_CMDS" and "segments \<noteq> []"
    and "\<not> (length segments = 1 \<and> is_builtin (stage_command segments 0))"
    and "\<forall>i. i < length segments - 1 \<longrightarrow> pipe_ok w i"
    and "\<forall>i. i < length segments \<longrightarrow> 0 < fork_res w i"
  shows "\<exists>es. trace (snd (execute_line w s line background full)) =
           trace s @ launch_effects w segments background @ es"
proof (cases background)
  case True
  then show ?thesis
    unfolding launch_ok [OF assms] by (simp add: Let_def)
next
  case False
  define s4 where "s4 = emit (emit s (launch_effects w segments background)) [Tcsetpgrp (fork_res w 0)]"
  obtain es where "trace (launch_wait (wait_res w) s4 (fork_res w 0) full) = trace s4 @ es"
    using launch_wait_trace by blast
  then have "trace (snd (execute_line w s line background full)) =
      trace s @ launch_effects w segments background @
        ([Tcsetpgrp (fork_res w 0)] @ es @ [Tcsetpgrp (getpgrp_res w)])"
    unfolding launch_ok [OF assms] using False by (simp add: Let_def s4_def)
  then show ?thesis by blast
qed

lemma fork_in_launch_effects:
  "i < length segments \<Longrightarrow>
   Fork (fork_res w i)
     (child_run w (stage_command segments i) i (length segments) background (fork_res w 0))
   \<in> set (launch_effects w segments background)"
  by (auto simp: launch_effects_def stage_effects_def)

lemma child_run_end:
  assumes "argv cmd = a0 # args"
  shows "(if snd (setup_redirections w cmd)
          then (if execvp_ok w a0
                then last (child_run w cmd i nseg background pg) = Execvp a0 (a0 # args)
                else Execvp_failed a0 \<in> set (child_run w cmd i nseg background pg) \<and>
                     last (child_run w cmd i nseg background pg) = Child_exit 127)
          else last (child_run w cmd i nseg background pg) = Child_exit 1 \<and>
               Execvp_failed a0 \<notin> set (child_run w cmd i nseg background pg))"
proof -
  obtain acts ok where r: "setup_redirections w cmd = (acts, ok)"
    by (cases "setup_redirections w cmd")
  have nf: "\<And>x. Execvp_failed x \<notin> set acts"
    using r by (auto simp: setup_redirections_def split: option.splits if_splits)
  have fail: "\<not> ok \<Longrightarrow> acts \<noteq> [] \<and> last acts = Child_exit 1"
    using r by (auto simp: setup_redirections_def split: option.splits if_splits)
  show ?thesis
    using assms nf fail by (auto simp: child_run_def r)
qed

text \<open>
  C3, as the code has it. A line with one stage whose command is a builtin is handed to
  \<^verbatim>\<open>run_builtin\<close> in the shell itself: the trace grows by no pipe, no fork and no
  \<^verbatim>\<open>setpgid\<close>, the id counter stays, and the jobs in the table afterwards are jobs that
  were there before. In a line with two or more stages whose pipes and processes are
  all created, every stage that has a command name, builtin or not, gets a child; that
  child first applies its redirections and exits with status 1 when a file cannot be
  opened; otherwise it calls \<^verbatim>\<open>execvp\<close> on the name and, when that fails, exits with
  status 127.
\<close>

theorem builtin_in_process_only_as_sole_stage:
  assumes "wf_shell s" and "segments = split_pipeline line MAX_CMDS"
  shows "(length segments = 1 \<and> is_builtin (stage_command segments 0) \<longrightarrow>
            execute_line w s line background full =
              (case run_builtin w s (stage_command segments 0) full of
                 (Return r, s') \<Rightarrow> (Return (), s')
               | (Exit n, s') \<Rightarrow> (Exit n, s'))
          \<and> quiet s (snd (execute_line w s line background full))
          \<and> next_job_id (snd (execute_line w s line background full)) = next_job_id s
          \<and> subseq (keys (snd (execute_line w s line background full))) (keys s))
       \<and> (2 \<le> length segments \<and> (\<forall>k. k < length segments - 1 \<longrightarrow> pipe_ok w k)
           \<and> (\<forall>k. k < length segments \<longrightarrow> 0 < fork_res w k)
           \<and> i < length segments \<and> argv (stage_command segments i) = a0 # args \<longrightarrow>
            (\<exists>es. trace (snd (execute_line w s line background full)) =
                    trace s @ launch_effects w segments background @ es)
          \<and> Fork (fork_res w i)
               (child_run w (stage_command segments i) i (length segments) background (fork_res w 0))
             \<in> set (launch_effects w segments background)
          \<and> (if snd (setup_redirections w (stage_command segments i))
              then (if execvp_ok w a0
                    then last (child_run w (stage_command segments i) i (length segments)
                                 background (fork_res w 0)) = Execvp a0 (a0 # args)
                    else Execvp_failed a0 \<in> set (child_run w (stage_command segments i) i
                                 (length segments) background (fork_res w 0)) \<and>
                         last (child_run w (stage_command segments i) i (length segments)
                                 background (fork_res w 0)) = Child_exit 127)
              else last (child_run w (stage_command segments i) i (length segments)
                           background (fork_res w 0)) = Child_exit 1 \<and>
                   Execvp_failed a0 \<notin> set (child_run w (stage_command segments i) i
                           (length segments) background (fork_res w 0))))"
proof (intro conjI impI)
  assume a: "length segments = 1 \<and> is_builtin (stage_command segments 0)"
  let ?r = "run_builtin w s (stage_command segments 0) full"
  show e: "execute_line w s line background full =
              (case ?r of (Return r, s') \<Rightarrow> (Return (), s') | (Exit n, s') \<Rightarrow> (Exit n, s'))"
    using a execute_line_builtin [OF assms(2), of w s background full]
    by (simp add: stage_command_def)
  have sn: "snd (execute_line w s line background full) = snd ?r"
    unfolding e by (rule snd_result_case)
  note KQ = run_builtin_keeps_quiet [of s w "stage_command segments 0" full]
  show "quiet s (snd (execute_line w s line background full))"
    using KQ assms(1) by (simp add: sn)
  show "next_job_id (snd (execute_line w s line background full)) = next_job_id s"
    using KQ assms(1) by (simp add: sn keeps_def)
  show "subseq (keys (snd (execute_line w s line background full))) (keys s)"
    using KQ assms(1) by (simp add: sn keeps_def)
next
  assume b: "2 \<le> length segments \<and> (\<forall>k. k < length segments - 1 \<longrightarrow> pipe_ok w k)
           \<and> (\<forall>k. k < length segments \<longrightarrow> 0 < fork_res w k)
           \<and> i < length segments \<and> argv (stage_command segments i) = a0 # args"
  have ne: "segments \<noteq> []" using b by auto
  have nb: "\<not> (length segments = 1 \<and> is_builtin (stage_command segments 0))" using b by simp
  show "\<exists>es. trace (snd (execute_line w s line background full)) =
                    trace s @ launch_effects w segments background @ es"
    using b by (intro launch_trace [OF assms(2) ne nb]) simp_all
  show "Fork (fork_res w i)
               (child_run w (stage_command segments i) i (length segments) background (fork_res w 0))
             \<in> set (launch_effects w segments background)"
    using b by (intro fork_in_launch_effects) simp
  show "(if snd (setup_redirections w (stage_command segments i))
              then (if execvp_ok w a0
                    then last (child_run w (stage_command segments i) i (length segments)
                                 background (fork_res w 0)) = Execvp a0 (a0 # args)
                    else Execvp_failed a0 \<in> set (child_run w (stage_command segments i) i
                                 (length segments) background (fork_res w 0)) \<and>
                         last (child_run w (stage_command segments i) i (length segments)
                                 background (fork_res w 0)) = Child_exit 127)
              else last (child_run w (stage_command segments i) i (length segments)
                           background (fork_res w 0)) = Child_exit 1 \<and>
                   Execvp_failed a0 \<notin> set (child_run w (stage_command segments i) i
                           (length segments) background (fork_res w 0)))"
    using b by (intro child_run_end) simp
qed


lemma split_cd_tmp: "split_pipeline ''cd /tmp'' MAX_CMDS = [''cd /tmp'']"
  by (simp add: split_pipeline_def strtok_all.simps strtok_r_def MAX_CMDS_def)

lemma cmd_cd_tmp:
  "stage_command [''cd /tmp''] 0 =
     \<lparr>argv = [''cd'', ''/tmp''], infile = None, outfile = None, append_out = 0\<rparr>"
  by (simp add: stage_command_def parse_command_def strtok_all.simps strtok_r_def whitespace_def
      MAX_INPUT_def MAX_ARGS_def empty_command_def)

lemma split_ls_cd: "split_pipeline ''ls | cd'' MAX_CMDS = [''ls '', ''cd'']"
  by (simp add: split_pipeline_def strtok_all.simps strtok_r_def MAX_CMDS_def)

lemma cmd_ls_cd:
  "stage_command [''ls '', ''cd''] 1 =
     \<lparr>argv = [''cd''], infile = None, outfile = None, append_out = 0\<rparr>"
  by (simp add: stage_command_def parse_command_def strtok_all.simps strtok_r_def whitespace_def
      MAX_INPUT_def MAX_ARGS_def empty_command_def)

theorem builtin_in_process_only_as_sole_stage_witness:
  "wf_shell sample_shell
   \<and> split_pipeline ''cd /tmp'' MAX_CMDS = [''cd /tmp'']
   \<and> is_builtin (stage_command [''cd /tmp''] 0)
   \<and> execute_line sample_os sample_shell ''cd /tmp'' False ''cd /tmp'' =
        (Return (), sample_shell\<lparr>trace := [Chdir ''/tmp'']\<rparr>)
   \<and> next_job_id (snd (execute_line sample_os sample_shell ''cd /tmp'' False ''cd /tmp'')) = 4
   \<and> split_pipeline ''ls | cd'' MAX_CMDS = [''ls '', ''cd'']
   \<and> argv (stage_command [''ls '', ''cd''] 1) = [''cd'']
   \<and> is_builtin (stage_command [''ls '', ''cd''] 1)
   \<and> snd (setup_redirections sample_os (stage_command [''ls '', ''cd''] 1))
   \<and> \<not> execvp_ok sample_os ''cd''
   \<and> Fork 102 (child_run sample_os (stage_command [''ls '', ''cd''] 1) 1 2 False 101)
        \<in> set (launch_effects sample_os [''ls '', ''cd''] False)
   \<and> Execvp_failed ''cd'' \<in> set (child_run sample_os (stage_command [''ls '', ''cd''] 1) 1 2 False 101)
   \<and> last (child_run sample_os (stage_command [''ls '', ''cd''] 1) 1 2 False 101) = Child_exit 127"
proof -
  have b1: "is_builtin (stage_command [''cd /tmp''] 0)"
    by (simp add: cmd_cd_tmp is_builtin_def)
  have r1: "run_builtin sample_os sample_shell (stage_command [''cd /tmp''] 0) ''cd /tmp'' =
      (Return 0, sample_shell\<lparr>trace := [Chdir ''/tmp'']\<rparr>)"
    by (simp add: cmd_cd_tmp run_builtin_def builtin_cd_def sample_os_def emit_def sample_shell_def)
  have pre1: "length [''cd /tmp''] = 1 \<and> is_builtin (stage_command [''cd /tmp''] 0)"
    using b1 by simp
  note T1 = builtin_in_process_only_as_sole_stage [OF wf_sample_shell split_cd_tmp [symmetric],
      of sample_os False "''cd /tmp''", THEN conjunct1, rule_format, OF pre1]
  have e1: "execute_line sample_os sample_shell ''cd /tmp'' False ''cd /tmp'' =
        (Return (), sample_shell\<lparr>trace := [Chdir ''/tmp'']\<rparr>)"
    using T1 [THEN conjunct1] by (simp add: r1)
  have "next_job_id sample_shell = 4" by (simp add: sample_shell_def)
  then have n1: "next_job_id (snd (execute_line sample_os sample_shell ''cd /tmp'' False ''cd /tmp'')) = 4"
    using T1 [THEN conjunct2, THEN conjunct2, THEN conjunct1] by simp
  have b2: "is_builtin (stage_command [''ls '', ''cd''] 1)"
    unfolding cmd_ls_cd by (simp add: is_builtin_def)
  have a2: "argv (stage_command [''ls '', ''cd''] 1) = ''cd'' # []"
    unfolding cmd_ls_cd by simp
  have s2: "snd (setup_redirections sample_os (stage_command [''ls '', ''cd''] 1))"
    unfolding cmd_ls_cd by (simp add: setup_redirections_def)
  have x2: "\<not> execvp_ok sample_os ''cd''"
    by (simp add: sample_os_def is_builtin_def empty_command_def)
  have pre2: "2 \<le> length [''ls '', ''cd'']
      \<and> (\<forall>k. k < length [''ls '', ''cd''] - 1 \<longrightarrow> pipe_ok sample_os k)
      \<and> (\<forall>k. k < length [''ls '', ''cd''] \<longrightarrow> 0 < fork_res sample_os k)
      \<and> (1::nat) < length [''ls '', ''cd'']
      \<and> argv (stage_command [''ls '', ''cd''] 1) = ''cd'' # []"
    using a2 by (simp add: sample_os_def)
  note T2 = builtin_in_process_only_as_sole_stage [OF wf_sample_shell split_ls_cd [symmetric],
      of sample_os False "''ls | cd''" 1 "''cd''" "[]", THEN conjunct2, rule_format, OF pre2]
  have fr: "fork_res sample_os 1 = 102" "fork_res sample_os 0 = 101"
    by (simp_all add: sample_os_def)
  have len2: "length [''ls '', ''cd''] = 2" by simp
  have f2: "Fork 102 (child_run sample_os (stage_command [''ls '', ''cd''] 1) 1 2 False 101)
        \<in> set (launch_effects sample_os [''ls '', ''cd''] False)"
    using T2 [THEN conjunct2, THEN conjunct1] unfolding len2 fr .
  have l2: "Execvp_failed ''cd'' \<in> set (child_run sample_os (stage_command [''ls '', ''cd''] 1) 1 2 False 101)
      \<and> last (child_run sample_os (stage_command [''ls '', ''cd''] 1) 1 2 False 101) = Child_exit 127"
    using T2 [THEN conjunct2, THEN conjunct2] unfolding len2 fr
    by (simp only: s2 x2 if_True if_False)
  show ?thesis
    using wf_sample_shell split_cd_tmp b1 e1 n1 split_ls_cd a2 b2 s2 x2 f2 l2 by simp
qed

lemma split_cd: "split_pipeline ''cd < nofile | cat'' MAX_CMDS = [''cd < nofile '', ''cat'']"
  by (simp add: split_pipeline_def strtok_all.simps strtok_r_def MAX_CMDS_def)

text \<open>
  C3 as stated fails: in \<^verbatim>\<open>cd < nofile | cat\<close> the first stage is named like a builtin
  and no program \<^verbatim>\<open>cd\<close> exists, yet its child never looks the name up and does not exit
  with status 127: the file cannot be opened and the child exits with status 1.
\<close>

theorem builtin_in_pipeline_redirect_counterexample:
  "split_pipeline ''cd < nofile | cat'' MAX_CMDS = [''cd < nofile '', ''cat'']
   \<and> argv (stage_command [''cd < nofile '', ''cat''] 0) = [''cd'']
   \<and> is_builtin (stage_command [''cd < nofile '', ''cat''] 0)
   \<and> \<not> execvp_ok sample_os ''cd''
   \<and> execute_line sample_os sample_shell ''cd < nofile | cat'' False ''cd < nofile | cat'' =
     (Return (),
      sample_shell\<lparr>trace :=
        [Pipe 0,
         Fork 101 [Signal_dfl SIGINT, Signal_dfl SIGTSTP, Child_setpgid 101, Child_tcsetpgrp 101,
                   Dup2_pipe 0 1 STDOUT_FILENO, Close_pipe 0 0, Close_pipe 0 1,
                   Child_perror ''open <'', Child_exit 1],
         Setpgid 101 101,
         Fork 102 [Signal_dfl SIGINT, Signal_dfl SIGTSTP, Child_setpgid 101,
                   Dup2_pipe 0 0 STDIN_FILENO, Close_pipe 0 0, Close_pipe 0 1,
                   Execvp ''cat'' [''cat'']],
         Setpgid 102 101,
         Close 0 0, Close 0 1, Tcsetpgrp 101, Tcsetpgrp 50]\<rparr>)"
  by (simp add: execute_line_def split_cd Let_def make_pipes.simps fork_stages.simps
      stage_command_def close_pipes_def
      parse_command_def strtok_all.simps strtok_r_def whitespace_def MAX_INPUT_def MAX_ARGS_def
      empty_command_def is_builtin_def sample_os_def child_run_def
      setup_redirections_def emit_def sample_shell_def)

end
